theory Spec2Isabelle
  imports
    Complex_Main
    "HOL-Library.Log_Nat"
    "HOL-Library.List_Lexorder"
    "HOL-Library.Word"
begin

section \<open>JavaScript values\<close>

subsection \<open>Strings\<close>

text \<open>
  A JavaScript string is a sequence of UTF-16 code units; \<open>s.length\<close> counts code
  units, and \<open>===\<close> and the default \<open>sort()\<close> compare code unit by code unit. A code
  unit is modelled by its number (below \<open>2 ^ 16\<close>), a string by the list of its code
  units. \<open>js\<close> reads an ASCII literal of the source.
\<close>

type_synonym jsstring = "nat list"

type_synonym byte = "8 word"

definition js :: "string \<Rightarrow> jsstring" where
  "js s = map of_char s"

text \<open>
  \<open>String.prototype.toLowerCase\<close>. The ASCII capitals go to their small letters. Two
  code points outside ASCII have a lower case that contains an ASCII letter: the Kelvin
  sign U+212A goes to \<open>k\<close>, and U+0130 goes to \<open>i\<close> followed by U+0307. Every other code
  unit outside ASCII goes to code units outside ASCII; the program only ever compares a
  lower-cased string with ASCII words, so those code units are left as they are.
\<close>

definition lowerUnit :: "nat \<Rightarrow> jsstring" where
  "lowerUnit c =
     (if 65 \<le> c \<and> c \<le> 90 then [c + 32]
      else if c = 0x212A then [107]
      else if c = 0x130 then [105, 0x307]
      else [c])"

definition toLowerCase :: "jsstring \<Rightarrow> jsstring" where
  "toLowerCase s = concat (map lowerUnit s)"

text \<open>
  The code units that \<open>trim\<close> and \<open>trimEnd\<close> remove: ECMAScript's WhiteSpace and
  LineTerminator productions.
\<close>

definition isWhiteSpace :: "nat \<Rightarrow> bool" where
  "isWhiteSpace c =
     (c \<in> set [0x9, 0xA, 0xB, 0xC, 0xD, 0x20, 0xA0, 0x1680, 0x2028, 0x2029, 0x202F,
                0x205F, 0x3000, 0xFEFF]
      \<or> (0x2000 \<le> c \<and> c \<le> 0x200A))"

definition trimStart :: "jsstring \<Rightarrow> jsstring" where
  "trimStart s = dropWhile isWhiteSpace s"

definition trimEnd :: "jsstring \<Rightarrow> jsstring" where
  "trimEnd s = rev (dropWhile isWhiteSpace (rev s))"

definition trim :: "jsstring \<Rightarrow> jsstring" where
  "trim s = trimEnd (trimStart s)"

text \<open>
  \<open>s.lastIndexOf(c)\<close> for a one-unit search string: the index of the last occurrence
  of \<open>c\<close>, and \<open>-1\<close> when \<open>c\<close> does not occur. The scan keeps the latest index at which
  \<open>c\<close> was seen.
\<close>

fun lastIndexFrom :: "nat \<Rightarrow> int \<Rightarrow> jsstring \<Rightarrow> nat \<Rightarrow> int" where
  "lastIndexFrom i found [] c = found"
| "lastIndexFrom i found (x # xs) c =
     lastIndexFrom (i + 1) (if x = c then int i else found) xs c"

definition lastIndexOf :: "jsstring \<Rightarrow> nat \<Rightarrow> int" where
  "lastIndexOf s c = lastIndexFrom 0 (- 1) s c"

text \<open>\<open>s.substring(start)\<close>: a negative start counts as 0, one past the end as the end.\<close>

definition substring :: "jsstring \<Rightarrow> int \<Rightarrow> jsstring" where
  "substring s start = drop (nat (max 0 start)) s"

text \<open>\<open>xs.join(sep)\<close>.\<close>

fun join :: "jsstring \<Rightarrow> jsstring list \<Rightarrow> jsstring" where
  "join sep [] = []"
| "join sep [x] = x"
| "join sep (x # y # ys) = x @ sep @ join sep (y # ys)"

subsection \<open>Numbers\<close>

text \<open>
  A JavaScript number is an IEEE 754 binary64 value. A finite one is modelled by the
  rational it denotes. The program divides lengths and counts, which are integers
  below \<open>2 ^ 53\<close> and so exact, by each other and by \<open>3.5\<close>; the quotient of two finite
  values is the exact quotient rounded to the nearest value with a 53-bit significand,
  ties to even. Such quotients stay far inside the normal range, so neither overflow
  nor gradual underflow is modelled; zero is unsigned, since no negative value arises.
\<close>

datatype number = NaN | PosInf | NegInf | Fin rat

text \<open>\<open>ilog2 x\<close> is the binary exponent of a positive \<open>x\<close>: \<open>2 ^ e \<le> x < 2 ^ (e + 1)\<close>.\<close>

definition ilog2 :: "rat \<Rightarrow> int" where
  "ilog2 x =
     (let (n, d) = quotient_of x; e0 = bitlen n - bitlen d
      in if 2 powi e0 \<le> x then e0 else e0 - 1)"

definition round_half_even :: "rat \<Rightarrow> int" where
  "round_half_even y =
     (let f = \<lfloor>y\<rfloor>; r = y - of_int f
      in if r < 1/2 then f else if 1/2 < r then f + 1 else if even f then f else f + 1)"

definition round64 :: "rat \<Rightarrow> rat" where
  "round64 x =
     (if x = 0 then 0
      else let u = 2 powi (ilog2 \<bar>x\<bar> - 52)
           in of_int (round_half_even (x / u)) * u)"

text \<open>\<open>x / y\<close> on finite operands.\<close>

definition num_div :: "rat \<Rightarrow> rat \<Rightarrow> number" where
  "num_div x y =
     (if y = 0 then (if x = 0 then NaN else if 0 < x then PosInf else NegInf)
      else Fin (round64 (x / y)))"

text \<open>\<open>a < b\<close>: false as soon as one side is \<open>NaN\<close>.\<close>

fun num_lt :: "number \<Rightarrow> number \<Rightarrow> bool" where
  "num_lt (Fin x) (Fin y) = (x < y)"
| "num_lt (Fin x) PosInf = True"
| "num_lt NegInf (Fin y) = True"
| "num_lt NegInf PosInf = True"
| "num_lt a b = False"

text \<open>\<open>Math.ceil\<close>.\<close>

fun math_ceil :: "number \<Rightarrow> number" where
  "math_ceil (Fin x) = Fin (of_int \<lceil>x\<rceil>)"
| "math_ceil a = a"

section \<open>Token estimate\<close>

text \<open>
  \<^verbatim>\<open>function estimateTokens(text) { return Math.ceil(text.length / 3.5); }\<close>
  The literal \<open>3.5\<close> is the binary64 value \<open>7/2\<close>.
\<close>

definition estimateTokens :: "jsstring \<Rightarrow> number" where
  "estimateTokens text = math_ceil (num_div (of_nat (length text)) (7/2))"

section \<open>The environment of a run\<close>

text \<open>
  The file system maps an absolute path to its node: what \<open>Deno.stat\<close> reports (kind
  and size) and, for a file that can be read, its bytes. A path without a node does not
  exist, and the file system does not change while the program runs. The functions of the libraries \<open>@std/path\<close> and \<open>@std/fs\<close> and the decoder of
  \<open>Deno.readTextFile\<close> are parameters of the model: \<open>walk e p skip\<close> lists the entries
  that \<open>walk(p, {skip})\<close> yields, each with its path and its \<open>isFile\<close> flag;
  \<open>globTest e pattern s\<close> is
  \<open>globToRegExp(pattern, {extended: true, globstar: true}).test(s)\<close>.
\<close>

datatype kind = IsFile | IsDirectory

record node =
  nkind :: kind
  fsize :: nat
  ndata :: "byte list option"

record env =
  cwd :: jsstring
  nodes :: "jsstring \<Rightarrow> node option"
  walk :: "jsstring \<Rightarrow> jsstring list \<Rightarrow> (jsstring \<times> bool) list"
  resolve :: "jsstring \<Rightarrow> jsstring"
  relative :: "jsstring \<Rightarrow> jsstring \<Rightarrow> jsstring"
  globTest :: "jsstring \<Rightarrow> jsstring \<Rightarrow> bool"
  decodeUtf8 :: "byte list \<Rightarrow> jsstring"
  clipboardWorks :: bool
  writable :: "jsstring \<Rightarrow> bool"

datatype error =
    NotFound jsstring
  | ReadFailed jsstring
  | WriteFailed jsstring
  | InvalidMaxSize jsstring

text \<open>\<open>Deno.readFile\<close>: \<open>None\<close> when it throws.\<close>

definition readFile :: "env \<Rightarrow> jsstring \<Rightarrow> byte list option" where
  "readFile e path =
     (case nodes e path of
        None \<Rightarrow> None
      | Some n \<Rightarrow> (if nkind n = IsFile then ndata n else None))"

text \<open>\<open>Deno.readTextFile\<close>: the bytes of the file, decoded as UTF-8.\<close>

definition readTextFile :: "env \<Rightarrow> jsstring \<Rightarrow> jsstring option" where
  "readTextFile e path = map_option (decodeUtf8 e) (readFile e path)"

section \<open>The classifier\<close>

definition BINARY_EXT :: "jsstring list" where
  "BINARY_EXT = map js
     [''.png'', ''.jpg'', ''.jpeg'', ''.gif'', ''.ico'', ''.webp'', ''.bmp'', ''.pdf'',
      ''.zip'', ''.tar'', ''.gz'', ''.rar'', ''.7z'', ''.exe'', ''.dll'', ''.so'',
      ''.dylib'', ''.bin'', ''.mp3'', ''.mp4'', ''.wav'', ''.avi'', ''.mov'', ''.mkv'',
      ''.woff'', ''.woff2'', ''.ttf'', ''.eot'', ''.otf'']"

text \<open>\<open>path.substring(path.lastIndexOf(".")).toLowerCase()\<close>\<close>

definition extensionOf :: "jsstring \<Rightarrow> jsstring" where
  "extensionOf path = toLowerCase (substring path (lastIndexOf path 46))"

text \<open>The loop \<open>for (const byte of sample) if (byte === 0) nullCount++\<close>.\<close>

definition countNulls :: "byte list \<Rightarrow> nat" where
  "countNulls sample = fold (\<lambda>byte nullCount. if byte = 0 then nullCount + 1 else nullCount) sample 0"

text \<open>
  \<open>nullCount / sample.length < 0.1\<close> for \<open>sample = data.slice(0, 8000)\<close>. The literal
  \<open>0.1\<close> is the binary64 value nearest to one tenth.
\<close>

definition sampleIsText :: "byte list \<Rightarrow> bool" where
  "sampleIsText data =
     (let sample = take 8000 data;
          nullCount = countNulls sample
      in num_lt (num_div (of_nat nullCount) (of_nat (length sample))) (Fin (round64 (1/10))))"

definition isTextFile :: "env \<Rightarrow> jsstring \<Rightarrow> bool" where
  "isTextFile e path =
     (let ext = extensionOf path
      in if ext \<in> set BINARY_EXT then False
         else (case readFile e path of
                 None \<Rightarrow> False
               | Some data \<Rightarrow> sampleIsText data))"

section \<open>The path resolver\<close>

definition IGNORED :: "jsstring list" where
  "IGNORED = map js
     [''node_modules'', ''.git'', ''.svn'', ''.hg'', ''dist'', ''build'', ''__pycache__'',
      ''.cache'', ''.vscode'', ''.idea'', ''vendor'']"

text \<open>The sources of the regular expressions \<open>new RegExp(`(^|/)${d}($|/)`)\<close>.\<close>

definition skipPatterns :: "jsstring list" where
  "skipPatterns = map (\<lambda>d. js ''(^|/)'' @ d @ js ''($|/)'') IGNORED"

text \<open>
  \<open>getFiles\<close>: a file is its own list; a directory is walked, the paths of the file
  entries are collected and sorted (the default \<open>sort()\<close> orders strings by code
  units). \<open>Deno.stat\<close> throws on a path that does not exist.
\<close>

definition getFiles :: "env \<Rightarrow> jsstring \<Rightarrow> error + jsstring list" where
  "getFiles e path =
     (case nodes e path of
        None \<Rightarrow> Inl (NotFound path)
      | Some stat \<Rightarrow>
          if nkind stat = IsFile then Inr [path]
          else Inr (sort (map fst (filter snd (walk e path skipPatterns)))))"

text \<open>The loop \<open>for (const p of paths) allFiles.push(...await getFiles(resolve(p)))\<close>.\<close>

fun collectFiles :: "env \<Rightarrow> jsstring list \<Rightarrow> jsstring list \<Rightarrow> error + jsstring list" where
  "collectFiles e [] allFiles = Inr allFiles"
| "collectFiles e (p # ps) allFiles =
     (case getFiles e (resolve e p) of
        Inl err \<Rightarrow> Inl err
      | Inr files \<Rightarrow> collectFiles e ps (allFiles @ files))"

text \<open>
  \<^verbatim>\<open>const base = paths.length === 1 ? resolve(paths[0]) : Deno.cwd();
const baseStat = await Deno.stat(base).catch(() => null);
const baseDir = baseStat?.isDirectory ? base : Deno.cwd();\<close>
\<close>

definition baseDirOf :: "env \<Rightarrow> jsstring list \<Rightarrow> jsstring" where
  "baseDirOf e paths =
     (let base = (if length paths = 1 then resolve e (hd paths) else cwd e)
      in case nodes e base of
           None \<Rightarrow> cwd e
         | Some baseStat \<Rightarrow> if nkind baseStat = IsDirectory then base else cwd e)"

section \<open>The pattern filter\<close>

record opts =
  opt_output :: "jsstring option"
  opt_include :: "jsstring list option"
  opt_exclude :: "jsstring list option"
  opt_maxSize :: jsstring
  opt_yes :: bool
  opt_copy :: bool
  opt_paths :: "jsstring list"

definition matchesPattern :: "env \<Rightarrow> jsstring \<Rightarrow> jsstring list \<Rightarrow> jsstring \<Rightarrow> bool" where
  "matchesPattern e filePath patterns baseDir =
     (let relativePath = relative e baseDir filePath
      in list_ex (\<lambda>pattern. globTest e pattern relativePath \<or> globTest e pattern filePath)
           patterns)"

text \<open>\<open>opts.include && opts.include.length > 0\<close>\<close>

definition given :: "jsstring list option \<Rightarrow> bool" where
  "given ps = (case ps of None \<Rightarrow> False | Some l \<Rightarrow> 0 < length l)"

definition filterFiles :: "env \<Rightarrow> opts \<Rightarrow> jsstring \<Rightarrow> jsstring list \<Rightarrow> jsstring list" where
  "filterFiles e opts baseDir allFiles =
     (let included =
            (if given (opt_include opts)
             then filter (\<lambda>file. matchesPattern e file (the (opt_include opts)) baseDir) allFiles
             else allFiles)
      in if given (opt_exclude opts)
         then filter (\<lambda>file. \<not> matchesPattern e file (the (opt_exclude opts)) baseDir) included
         else included)"

section \<open>The size threshold\<close>

definition isDigit :: "nat \<Rightarrow> bool" where
  "isDigit c = (48 \<le> c \<and> c \<le> 57)"

text \<open>
  Matching with the flag \<open>i\<close> and without the flag \<open>u\<close> compares the upper-case forms
  of single code units, and never lets a code unit outside ASCII match an ASCII one.
\<close>

definition asciiUpper :: "nat \<Rightarrow> nat" where
  "asciiUpper c = (if 97 \<le> c \<and> c \<le> 122 then c - 32 else c)"

text \<open>\<open>parseInt\<close> on a run of decimal digits (exact while the value is below \<open>2 ^ 53\<close>).\<close>

definition parseInt :: "jsstring \<Rightarrow> nat" where
  "parseInt digits = fold (\<lambda>c n. 10 * n + (c - 48)) digits 0"

text \<open>
  \<open>parseMaxSize\<close>: the input has to match \<^verbatim>\<open>/^(\d+)(k|kb|m|mb)?$/i\<close>; otherwise the
  process exits with code 1, which is \<open>None\<close> here.
\<close>

definition parseMaxSize :: "jsstring \<Rightarrow> nat option" where
  "parseMaxSize input =
     (let digits = takeWhile isDigit input;
          rest = dropWhile isDigit input
      in if digits \<noteq> [] \<and> map asciiUpper rest \<in> set (map js ['''', ''K'', ''KB'', ''M'', ''MB''])
         then let size = parseInt digits;
                  unit = toLowerCase rest
              in if unit = js ''k'' \<or> unit = js ''kb'' then Some (size * 1024)
                 else if unit = js ''m'' \<or> unit = js ''mb'' then Some (size * (1024 * 1024))
                 else Some size
         else None)"

section \<open>The size gate\<close>

text \<open>
  The state of the loop over \<open>filteredFiles\<close>: the flag \<open>opts.yes\<close>, which the loop
  itself sets, the two result arrays, the confirmation requests issued so far (display
  name, size and token estimate of each), and the operator's input still to come: one
  element for each future call of \<open>promptStderr\<close>, holding the text that its read loop
  collects; when nothing is left the input stream is at its end.
\<close>

record gate =
  yesFlag :: bool
  filesToInclude :: "jsstring list"
  skippedFiles :: "jsstring list"
  prompted :: "(jsstring \<times> nat \<times> number) list"
  stdin :: "jsstring list"

text \<open>\<open>input.replace(/\r?\n$/, "")\<close>\<close>

definition stripNewline :: "jsstring \<Rightarrow> jsstring" where
  "stripNewline s =
     (if s \<noteq> [] \<and> last s = 10
      then (let t = butlast s in if t \<noteq> [] \<and> last t = 13 then butlast t else t)
      else s)"

text \<open>
  The end of \<open>promptStderr\<close>:
  \<^verbatim>\<open>if (!input) return null; return input.replace(/\r?\n$/, "") || null;\<close>
\<close>

definition lineOf :: "jsstring \<Rightarrow> jsstring option" where
  "lineOf input =
     (if input = [] then None
      else if stripNewline input = [] then None
      else Some (stripNewline input))"

text \<open>
  \<open>promptStderr\<close> after the prompt has been written: at the end of the input stream
  nothing is read and the collected text is empty.
\<close>

definition promptStderr :: "gate \<Rightarrow> jsstring option \<times> gate" where
  "promptStderr st =
     (case stdin st of
        [] \<Rightarrow> (lineOf [], st)
      | input # rest \<Rightarrow> (lineOf input, st\<lparr>stdin := rest\<rparr>))"

text \<open>\<open>(answer || "").toLowerCase().trim()\<close>\<close>

definition choiceOf :: "jsstring option \<Rightarrow> jsstring" where
  "choiceOf answer = trim (toLowerCase (case answer of None \<Rightarrow> [] | Some a \<Rightarrow> a))"

text \<open>\<open>relative(baseDir, file) || file\<close>\<close>

definition displayName :: "env \<Rightarrow> jsstring \<Rightarrow> jsstring \<Rightarrow> jsstring" where
  "displayName e baseDir file =
     (let r = relative e baseDir file in if r = [] then file else r)"

datatype ctl = Continue | Break

definition pushInclude :: "jsstring \<Rightarrow> gate \<Rightarrow> gate" where
  "pushInclude file st = st\<lparr>filesToInclude := filesToInclude st @ [file]\<rparr>"

definition pushSkipped :: "jsstring \<Rightarrow> gate \<Rightarrow> gate" where
  "pushSkipped name st = st\<lparr>skippedFiles := skippedFiles st @ [name]\<rparr>"

text \<open>
  One iteration of the loop. \<open>Continue\<close> stands for reaching the end of the body or a
  \<open>continue\<close>, \<open>Break\<close> for the \<open>break\<close>. The warning printed before the prompt reads the
  whole file to estimate its tokens.
\<close>

definition gateStep ::
    "env \<Rightarrow> nat \<Rightarrow> jsstring \<Rightarrow> jsstring \<Rightarrow> gate \<Rightarrow> error + (ctl \<times> gate)" where
  "gateStep e maxFileSize baseDir file st =
     (if \<not> isTextFile e file then Inr (Continue, st)
      else case nodes e file of
        None \<Rightarrow> Inl (NotFound file)
      | Some stat \<Rightarrow>
          let name = displayName e baseDir file
          in if maxFileSize < fsize stat then
               if yesFlag st then Inr (Continue, pushInclude file st)
               else case readTextFile e file of
                 None \<Rightarrow> Inl (ReadFailed file)
               | Some text \<Rightarrow>
                   let (answer, st') =
                         promptStderr
                           (st\<lparr>prompted := prompted st @ [(name, fsize stat, estimateTokens text)]\<rparr>);
                       choice = choiceOf answer
                   in if choice = js ''a'' \<or> choice = js ''all''
                      then Inr (Continue, pushInclude file (st'\<lparr>yesFlag := True\<rparr>))
                      else if choice = js ''s'' \<or> choice = js ''skip''
                      then Inr (Break, pushSkipped name st')
                      else if choice = js ''y'' \<or> choice = js ''yes''
                      then Inr (Continue, pushInclude file st')
                      else Inr (Continue, pushSkipped name st')
             else Inr (Continue, pushInclude file st))"

text \<open>The loop \<open>for (const file of filteredFiles)\<close>; the control value tells how it ended.\<close>

fun gateLoop ::
    "env \<Rightarrow> nat \<Rightarrow> jsstring \<Rightarrow> jsstring list \<Rightarrow> gate \<Rightarrow> error + (ctl \<times> gate)" where
  "gateLoop e maxFileSize baseDir [] st = Inr (Continue, st)"
| "gateLoop e maxFileSize baseDir (file # files) st =
     (case gateStep e maxFileSize baseDir file st of
        Inl err \<Rightarrow> Inl err
      | Inr (Break, st') \<Rightarrow> Inr (Break, st')
      | Inr (Continue, st') \<Rightarrow> gateLoop e maxFileSize baseDir files st')"

definition initialGate :: "opts \<Rightarrow> jsstring list \<Rightarrow> gate" where
  "initialGate opts input =
     \<lparr>yesFlag = opt_yes opts, filesToInclude = [], skippedFiles = [], prompted = [],
      stdin = input\<rparr>"

section \<open>The concatenator\<close>

text \<open>
  \<^verbatim>\<open>for (const file of filesToInclude) {
  const name = relative(baseDir, file) || file;
  const content = await Deno.readTextFile(file);
  output.push(`-- file: ${name} --`);
  output.push(content.trimEnd());
  output.push("");
}\<close>
\<close>

fun buildOutput :: "env \<Rightarrow> jsstring \<Rightarrow> jsstring list \<Rightarrow> jsstring list \<Rightarrow> error + jsstring list" where
  "buildOutput e baseDir [] output = Inr output"
| "buildOutput e baseDir (file # files) output =
     (let name = displayName e baseDir file
      in case readTextFile e file of
           None \<Rightarrow> Inl (ReadFailed file)
         | Some content \<Rightarrow>
             buildOutput e baseDir files
               (output @ [js ''-- file: '' @ name @ js '' --'', trimEnd content, []]))"

section \<open>The sinks\<close>

text \<open>What a run delivers: the clipboard text, the file written, the lines logged to standard output.\<close>

record sinks =
  clipboard :: "jsstring option"
  written :: "(jsstring \<times> jsstring) option"
  stdout :: "jsstring list"

text \<open>The truth value of \<open>opts.output\<close>: \<open>undefined\<close> and the empty string are false.\<close>

definition truthy :: "jsstring option \<Rightarrow> bool" where
  "truthy v = (case v of None \<Rightarrow> False | Some s \<Rightarrow> s \<noteq> [])"

text \<open>\<open>copyToClipboard\<close> catches its own failure and only warns.\<close>

definition copyToClipboard :: "env \<Rightarrow> jsstring \<Rightarrow> sinks \<Rightarrow> sinks" where
  "copyToClipboard e text s = (if clipboardWorks e then s\<lparr>clipboard := Some text\<rparr> else s)"

text \<open>
  \<^verbatim>\<open>if (opts.copy) { await copyToClipboard(result); ... }
if (opts.output) { await Deno.writeTextFile(opts.output, result); ... }
if (!opts.output && !opts.copy) { console.log(result); }\<close>
  The second component is the exception that ended the dispatch, if any.
\<close>

definition dispatch :: "env \<Rightarrow> opts \<Rightarrow> jsstring \<Rightarrow> sinks \<times> error option" where
  "dispatch e opts result =
     (let s0 = \<lparr>clipboard = None, written = None, stdout = []\<rparr>;
          s1 = (if opt_copy opts then copyToClipboard e result s0 else s0)
      in if truthy (opt_output opts) \<and> \<not> writable e (the (opt_output opts))
         then (s1, Some (WriteFailed (the (opt_output opts))))
         else let s2 = (if truthy (opt_output opts)
                        then s1\<lparr>written := Some (the (opt_output opts), result)\<rparr> else s1);
                  s3 = (if \<not> truthy (opt_output opts) \<and> \<not> opt_copy opts
                        then s2\<lparr>stdout := stdout s2 @ [result]\<rparr> else s2)
              in (s3, None))"

section \<open>The run\<close>

record outcome =
  included :: "jsstring list"
  skipped :: "jsstring list"
  requests :: "(jsstring \<times> nat \<times> number) list"
  body :: jsstring
  totalTokens :: number
  delivered :: sinks

text \<open>
  The script from the parsed options to the sinks. The tree and the summary, which go
  to the diagnostic stream, are left out.
\<close>

definition main :: "env \<Rightarrow> opts \<Rightarrow> jsstring list \<Rightarrow> error + outcome" where
  "main e opts input =
     (case parseMaxSize (opt_maxSize opts) of
        None \<Rightarrow> Inl (InvalidMaxSize (opt_maxSize opts))
      | Some maxFileSize \<Rightarrow>
     (case collectFiles e (opt_paths opts) [] of
        Inl err \<Rightarrow> Inl err
      | Inr allFiles \<Rightarrow>
     (let baseDir = baseDirOf e (opt_paths opts);
          filteredFiles = filterFiles e opts baseDir allFiles
      in case gateLoop e maxFileSize baseDir filteredFiles (initialGate opts input) of
        Inl err \<Rightarrow> Inl err
      | Inr (c, st) \<Rightarrow>
     (case buildOutput e baseDir (filesToInclude st) [] of
        Inl err \<Rightarrow> Inl err
      | Inr output \<Rightarrow>
     (let result = join [10] output
      in case dispatch e opts result of
        (s, Some err) \<Rightarrow> Inl err
      | (s, None) \<Rightarrow>
          Inr \<lparr>included = filesToInclude st, skipped = skippedFiles st,
               requests = prompted st, body = result,
               totalTokens = estimateTokens result, delivered = s\<rparr>)))))"

section \<open>What becomes of a file\<close>

text \<open>
  The four things a run can do with a resolved file, in this order: include it, skip
  it (the skipped sequence holds display names), drop it at the pattern filter, drop it
  as binary.
\<close>

definition categoriesOf :: "env \<Rightarrow> opts \<Rightarrow> jsstring list \<Rightarrow> outcome \<Rightarrow> jsstring \<Rightarrow> bool list" where
  "categoriesOf e opts allFiles out f =
     (let baseDir = baseDirOf e (opt_paths opts);
          filteredFiles = filterFiles e opts baseDir allFiles
      in [f \<in> set (included out),
          displayName e baseDir f \<in> set (skipped out),
          f \<notin> set filteredFiles,
          f \<in> set filteredFiles \<and> \<not> isTextFile e f])"

definition atMostOne :: "bool list \<Rightarrow> bool" where
  "atMostOne bs = (length (filter id bs) \<le> 1)"

section \<open>An example directory\<close>

text \<open>
  A working directory \<open>/w\<close> with three files: \<open>a.ts\<close> and \<open>b.ts\<close> of 14 bytes each
  and the empty file \<open>empty.txt\<close>. The library functions are given as they act on the
  paths and patterns used below: relative names without \<open>.\<close> or \<open>..\<close> segments,
  patterns without glob metacharacters (such a pattern matches the string equal to
  it), ASCII content.
\<close>

definition sampleNodes :: "jsstring \<Rightarrow> node option" where
  "sampleNodes p =
     (if p = js ''/w'' then Some \<lparr>nkind = IsDirectory, fsize = 4096, ndata = None\<rparr>
      else if p = js ''/w/a.ts''
        then Some \<lparr>nkind = IsFile, fsize = 14, ndata = Some (map of_char ''console.log(4)'')\<rparr>
      else if p = js ''/w/b.ts''
        then Some \<lparr>nkind = IsFile, fsize = 14, ndata = Some (map of_char ''console.log(5)'')\<rparr>
      else if p = js ''/w/empty.txt''
        then Some \<lparr>nkind = IsFile, fsize = 0, ndata = Some []\<rparr>
      else None)"

definition sampleEnv :: env where
  "sampleEnv =
     \<lparr>cwd = js ''/w'',
      nodes = sampleNodes,
      walk = (\<lambda>p skip. if p = js ''/w''
                then [(js ''/w'', False), (js ''/w/b.ts'', True), (js ''/w/a.ts'', True),
                      (js ''/w/empty.txt'', True)]
                else []),
      resolve = (\<lambda>p. if take 1 p = js ''/'' then p else js ''/w/'' @ p),
      relative = (\<lambda>b f. if take (length b + 1) f = b @ js ''/'' then drop (length b + 1) f else f),
      globTest = (\<lambda>pattern s. pattern = s),
      decodeUtf8 = map unat,
      clipboardWorks = True,
      writable = (\<lambda>p. True)\<rparr>"

definition sampleOpts :: opts where
  "sampleOpts =
     \<lparr>opt_output = None, opt_include = None, opt_exclude = None, opt_maxSize = js ''100k'',
      opt_yes = False, opt_copy = False, opt_paths = [js ''a.ts'']\<rparr>"

section \<open>Rounding\<close>

text \<open>
  The binary exponent is what its name says, rounding to the nearest integer moves a
  value by at most one half, and so a rounded quotient is within half a unit in the last
  place of the exact one.
\<close>

lemma ilog2_lower: assumes "0 < x" shows "2 powi (ilog2 x) \<le> x"
proof -
  obtain n d where nd: "quotient_of x = (n, d)" by (cases "quotient_of x")
  have d: "0 < d" using quotient_of_denom_pos[OF nd] .
  have x: "x = of_int n / of_int d" using quotient_of_div[OF nd] .
  have n: "0 < n" using assms d x by (simp add: zero_less_divide_iff)
  let ?e0 = "bitlen n - bitlen d"
  show ?thesis
  proof (cases "2 powi ?e0 \<le> x")
    case True then show ?thesis by (simp add: ilog2_def nd)
  next
    case False
    have bn: "(2::int) ^ nat (bitlen n - 1) \<le> n" using bitlen_bounds[OF n] by simp
    have bd: "d < (2::int) ^ nat (bitlen d)" using bitlen_bounds[OF d] by simp
    have bnp: "1 \<le> bitlen n" using n bitlen_eq_zero_iff[of n] bitlen_nonneg[of n] by linarith
    have bdp: "0 \<le> bitlen d" by (rule bitlen_nonneg)
    have n': "(2::rat) powi (bitlen n - 1) \<le> of_int n"
    proof -
      have "(of_int ((2::int) ^ nat (bitlen n - 1)) :: rat) \<le> of_int n" using bn by (simp only: of_int_le_iff)
      then show ?thesis using bnp by (simp add: power_int_def)
    qed
    have d': "of_int d \<le> (2::rat) powi (bitlen d)"
    proof -
      have "(of_int d :: rat) \<le> of_int ((2::int) ^ nat (bitlen d))" using bd by (simp only: of_int_le_iff less_imp_le)
      then show ?thesis using bdp by (simp add: power_int_def)
    qed
    have "(2::rat) powi (?e0 - 1) = 2 powi (bitlen n - 1) / 2 powi (bitlen d)"
      by (simp add: power_int_diff)
    also have "\<dots> \<le> of_int n / 2 powi (bitlen d)"
      using n' by (simp add: divide_right_mono)
    also have "\<dots> \<le> of_int n / of_int d"
      using d' d n by (simp add: frac_le)
    finally have "(2::rat) powi (?e0 - 1) \<le> x" using x by simp
    then show ?thesis using False by (simp add: ilog2_def nd)
  qed
qed

lemma ilog2_upper: assumes "0 < x" shows "x < 2 powi (ilog2 x + 1)"
proof -
  obtain n d where nd: "quotient_of x = (n, d)" by (cases "quotient_of x")
  have d: "0 < d" using quotient_of_denom_pos[OF nd] .
  have x: "x = of_int n / of_int d" using quotient_of_div[OF nd] .
  have n: "0 < n" using assms d x by (simp add: zero_less_divide_iff)
  let ?e0 = "bitlen n - bitlen d"
  show ?thesis
  proof (cases "2 powi ?e0 \<le> x")
    case False then show ?thesis by (simp add: ilog2_def nd)
  next
    case True
    have bn: "n < (2::int) ^ nat (bitlen n)" using bitlen_bounds[OF n] by simp
    have bd: "(2::int) ^ nat (bitlen d - 1) \<le> d" using bitlen_bounds[OF d] by simp
    have bdp: "1 \<le> bitlen d" using d bitlen_eq_zero_iff[of d] bitlen_nonneg[of d] by linarith
    have bnp: "0 \<le> bitlen n" by (rule bitlen_nonneg)
    have n': "of_int n < (2::rat) powi (bitlen n)"
    proof -
      have "(of_int n :: rat) < of_int ((2::int) ^ nat (bitlen n))" using bn by (simp only: of_int_less_iff)
      then show ?thesis using bnp by (simp add: power_int_def)
    qed
    have d': "(2::rat) powi (bitlen d - 1) \<le> of_int d"
    proof -
      have "(of_int ((2::int) ^ nat (bitlen d - 1)) :: rat) \<le> of_int d" using bd by (simp only: of_int_le_iff)
      then show ?thesis using bdp by (simp add: power_int_def)
    qed
    have p: "(0::rat) < 2 powi (bitlen d - 1)" by simp
    have "x = of_int n / of_int d" by (rule x)
    also have "\<dots> < 2 powi (bitlen n) / of_int d"
      using n' d by (simp add: divide_strict_right_mono)
    also have "\<dots> \<le> 2 powi (bitlen n) / 2 powi (bitlen d - 1)"
    proof (rule divide_left_mono)
      show "2 powi (bitlen d - 1) \<le> rat_of_int d" by (rule d')
      show "(0::rat) \<le> 2 powi bitlen n" by simp
      show "0 < rat_of_int d * 2 powi (bitlen d - 1)" using d p by (intro mult_pos_pos) simp_all
    qed
    also have "\<dots> = 2 powi (?e0 + 1)"
      by (simp add: power_int_diff power_int_add)
    finally show ?thesis using True by (simp add: ilog2_def nd)
  qed
qed

lemma round_half_even_err: "\<bar>of_int (round_half_even y) - y\<bar> \<le> 1/2"
proof -
  have a: "of_int \<lfloor>y\<rfloor> \<le> y" and b: "y < of_int \<lfloor>y\<rfloor> + 1" by linarith+
  show ?thesis unfolding round_half_even_def Let_def using a b
    by (simp add: abs_le_iff)
qed

lemma round_half_even_le: "y \<le> of_int k \<Longrightarrow> round_half_even y \<le> k"
  unfolding round_half_even_def Let_def
  by (auto simp: le_floor_iff floor_le_iff)

lemma round64_err:
  assumes "0 < x" shows "\<bar>round64 x - x\<bar> \<le> 2 powi (ilog2 x - 53)"
proof -
  define u :: rat where "u = 2 powi (ilog2 x - 52)"
  have u: "0 < u" by (simp add: u_def)
  have r: "round64 x = of_int (round_half_even (x / u)) * u"
    using assms by (simp add: round64_def u_def Let_def)
  have "\<bar>of_int (round_half_even (x / u)) - x / u\<bar> * u \<le> 1/2 * u"
    using round_half_even_err[of "x / u"] u by (intro mult_right_mono) simp_all
  moreover have "\<bar>of_int (round_half_even (x / u)) - x / u\<bar> * u = \<bar>round64 x - x\<bar>"
  proof -
    have "\<bar>of_int (round_half_even (x / u)) - x / u\<bar> * u = \<bar>(of_int (round_half_even (x / u)) - x / u) * u\<bar>"
      using u by (simp add: abs_mult)
    also have "(of_int (round_half_even (x / u)) - x / u) * u = round64 x - x"
      using u by (simp add: r left_diff_distrib)
    finally show ?thesis .
  qed
  moreover have "1/2 * u = 2 powi (ilog2 x - 53)"
  proof -
    have "u = 2 powi ((ilog2 x - 53) + 1)" unfolding u_def by simp
    also have "\<dots> = 2 powi (ilog2 x - 53) * 2" by (rule power_int_add_1) simp
    finally show ?thesis by simp
  qed
  ultimately show ?thesis by simp
qed

lemma round64_rel:
  assumes "0 < x" shows "\<bar>round64 x - x\<bar> \<le> x / 2 ^ 53"
proof -
  have "(2::rat) powi (ilog2 x - 53) = 2 powi (ilog2 x) / 2 ^ 53"
    by (simp add: power_int_diff)
  also have "\<dots> \<le> x / 2 ^ 53" using ilog2_lower[OF assms] by (simp add: divide_right_mono)
  finally show ?thesis using round64_err[OF assms] by linarith
qed

lemma round64_le_int:
  assumes "0 < x" "x \<le> of_int k" "ilog2 x \<le> 52"
  shows "round64 x \<le> of_int k"
proof -
  define u :: rat where "u = 2 powi (ilog2 x - 52)"
  define m :: nat where "m = nat (52 - ilog2 x)"
  have u: "0 < u" by (simp add: u_def)
  have um: "u = 1 / 2 ^ m" using assms(3) by (simp add: u_def m_def power_int_def inverse_eq_divide power_one_over)
  have r: "round64 x = of_int (round_half_even (x / u)) * u"
    using assms by (simp add: round64_def u_def Let_def)
  have "x / u \<le> of_int k / u" using assms(2) u by (simp add: divide_right_mono)
  also have "of_int k / u = of_int (k * 2 ^ m)" by (simp add: um)
  finally have "round_half_even (x / u) \<le> k * 2 ^ m" by (rule round_half_even_le)
  then have "(of_int (round_half_even (x / u)) :: rat) \<le> of_int (k * 2 ^ m)" by (simp only: of_int_le_iff)
  then have "of_int (round_half_even (x / u)) * u \<le> of_int (k * 2 ^ m) * u" using u by (intro mult_right_mono) simp_all
  also have "of_int (k * 2 ^ m) * u = of_int k" by (simp add: um)
  finally show ?thesis by (simp add: r)
qed

text \<open>
  The two divisions of the program. For a length below \<open>2 ^ 50\<close> the rounded quotient
  by \<open>3.5\<close> has the ceiling of the exact quotient: the exact quotient is a multiple of
  one seventh, and the rounding error is at most \<open>1/32\<close>. For a sample of at most 8000
  bytes the rounded fraction of zero bytes is below the literal \<open>0.1\<close> exactly when
  the exact fraction is below one tenth.
\<close>

lemma ceiling_round64_tokens:
  assumes "L < 2 ^ 50"
  shows "\<lceil>round64 (of_nat L / (7/2))\<rceil> = \<lceil>(of_nat L :: rat) / (7/2)\<rceil>"
proof (cases "L = 0")
  case True then show ?thesis by (simp add: round64_def)
next
  case False
  define q :: rat where "q = of_nat L / (7/2)"
  define c where "c = \<lceil>q\<rceil>"
  have q7: "7 * q = of_nat (2 * L)" by (simp add: q_def)
  have qpos: "0 < q" using False by (simp add: q_def)
  have "(of_nat L :: rat) < 2 ^ 50" using assms by (metis of_nat_less_iff of_nat_numeral of_nat_power)
  then have qlt: "q < 2 powi 49" by (simp add: q_def)
  have "2 powi (ilog2 q) \<le> q" by (rule ilog2_lower[OF qpos])
  then have "(2::rat) powi (ilog2 q) < 2 powi 49" using qlt by linarith
  then have e: "ilog2 q < 49" by (rule power_int_le_imp_less_exp[rotated]) simp_all
  then have "(2::rat) powi (ilog2 q - 53) \<le> 2 powi (-5)" by (intro power_int_increasing) simp_all
  moreover have "(2::rat) powi (-5) = 1/32" by (simp add: power_int_minus)
  ultimately have err: "\<bar>round64 q - q\<bar> \<le> 1/32" using round64_err[OF qpos] by linarith
  have cq: "q \<le> of_int c" by (simp add: c_def)
  have up: "round64 q \<le> of_int c" using qpos cq e by (intro round64_le_int) simp_all
  have "of_int c < q + 1" unfolding c_def by linarith
  then have "7 * of_int c < 7 * q + 7" by simp
  then have "(of_int (7 * c) :: rat) < of_int (int (2 * L) + 7)" by (simp add: q7)
  then have "7 * c < int (2 * L) + 7" by (simp only: of_int_less_iff)
  then have "7 * c \<le> int (2 * L) + 6" by simp
  then have "(of_int (7 * c) :: rat) \<le> of_int (int (2 * L) + 6)" by (simp only: of_int_le_iff)
  then have "7 * of_int c \<le> 7 * q + 6" by (simp add: q7)
  then have "of_int c - 1 < round64 q" using err by linarith
  then have "\<lceil>round64 q\<rceil> = c" using up by (intro ceiling_unique) simp_all
  then show ?thesis by (simp add: q_def c_def)
qed

lemma zero_fraction_lt:
  assumes "0 < b" "b \<le> 8000" "a \<le> b"
  shows "round64 (of_nat a / of_nat b) < round64 (1/10) \<longleftrightarrow> 10 * a < (b::nat)"
proof -
  define t :: rat where "t = round64 (1/10)"
  define eps :: rat where "eps = 1 / 2 ^ 53"
  have t: "\<bar>t - 1/10\<bar> \<le> (1/10) * eps" using round64_rel[of "1/10"] by (simp add: t_def eps_def)
  have bpos: "(0::rat) < of_nat b" using assms by simp
  have b8: "(of_nat b :: rat) \<le> 8000" using assms(2) by (metis of_nat_le_iff of_nat_numeral)
  consider "10 * a < b" | "10 * a = b" | "b < 10 * a" by linarith
  then show ?thesis
  proof cases
    case 1
    show ?thesis
    proof (cases "a = 0")
      case True
      have "1/10 - (1/10) * eps \<le> t" using t by linarith
      moreover have "0 < 1/10 - (1/10) * eps" by (simp add: eps_def)
      ultimately have "0 < t" by linarith
      moreover have "round64 (of_nat a / of_nat b) = 0" using True by (simp add: round64_def)
      ultimately show ?thesis using 1 by (simp add: t_def)
    next
      case False
      define x :: rat where "x = of_nat a / of_nat b"
      have xpos: "0 < x" using False bpos by (simp add: x_def)
      have "10 * a + 1 \<le> b" using 1 by simp
      then have "(of_nat (10 * a + 1) :: rat) \<le> of_nat b" by (simp only: of_nat_le_iff)
      then have "10 * of_nat a + 1 \<le> (of_nat b :: rat)" by simp
      then have "10 * x + 1 / of_nat b \<le> 1" using bpos by (simp add: x_def field_simps)
      moreover have "1 / 8000 \<le> 1 / (of_nat b :: rat)" using bpos b8 by (simp add: field_simps)
      ultimately have x1: "x \<le> 1/10 - 1/80000" by linarith
      have "\<bar>round64 x - x\<bar> \<le> x * eps" using round64_rel[OF xpos] by (simp add: eps_def)
      then have "round64 x \<le> x + x * eps" by linarith
      also have "\<dots> = x * (1 + eps)" by (simp add: algebra_simps)
      also have "\<dots> \<le> (1/10 - 1/80000) * (1 + eps)" using x1 by (intro mult_right_mono) (simp_all add: eps_def)
      also have "\<dots> < 1/10 - (1/10) * eps" by (simp add: eps_def)
      also have "\<dots> \<le> t" using t by linarith
      finally show ?thesis using 1 by (simp add: x_def t_def)
    qed
  next
    case 2
    then have "(of_nat (10 * a) :: rat) = of_nat b" by simp
    then have "of_nat a / (of_nat b :: rat) = 1/10" using bpos by (simp add: field_simps)
    then have "round64 (of_nat a / of_nat b) = round64 (1/10)" by (simp only:)
    then show ?thesis using 2 by (simp only: less_irrefl)
  next
    case 3
    define x :: rat where "x = of_nat a / of_nat b"
    have apos: "0 < a" using 3 by simp
    have xpos: "0 < x" using apos bpos by (simp add: x_def)
    have "b + 1 \<le> 10 * a" using 3 by simp
    then have "(of_nat (b + 1) :: rat) \<le> of_nat (10 * a)" by (simp only: of_nat_le_iff)
    then have "(of_nat b :: rat) + 1 \<le> 10 * of_nat a" by simp
    then have "((of_nat b :: rat) + 1) / of_nat b \<le> (10 * of_nat a) / of_nat b"
      by (intro divide_right_mono) simp_all
    then have "1 + 1 / of_nat b \<le> 10 * x" using bpos by (simp add: x_def add_divide_distrib)
    moreover have "1 / 8000 \<le> 1 / (of_nat b :: rat)" using bpos b8 by (simp add: field_simps)
    ultimately have x1: "1/10 + 1/80000 \<le> x" by linarith
    have "\<bar>round64 x - x\<bar> \<le> x * eps" using round64_rel[OF xpos] by (simp add: eps_def)
    then have "x - x * eps \<le> round64 x" by linarith
    moreover have "x - x * eps = x * (1 - eps)" by (simp add: algebra_simps)
    moreover have "(1/10 + 1/80000) * (1 - eps) \<le> x * (1 - eps)" using x1 by (intro mult_right_mono) (simp_all add: eps_def)
    moreover have "1/10 + (1/10) * eps < (1/10 + 1/80000) * (1 - eps)" by (simp add: eps_def)
    moreover have "t \<le> 1/10 + (1/10) * eps" using t by linarith
    ultimately have "t < round64 x" by linarith
    then show ?thesis using 3 by (simp add: x_def t_def)
  qed
qed

section \<open>Facts about the classifier\<close>

lemma countNulls_filter: "countNulls sample = length (filter (\<lambda>byte. byte = 0) sample)"
proof -
  have "fold (\<lambda>byte nullCount. if byte = 0 then nullCount + 1 else nullCount) sample k
        = k + length (filter (\<lambda>byte. byte = 0) sample)" for k :: nat
    by (induction sample arbitrary: k) simp_all
  then show ?thesis by (simp add: countNulls_def)
qed

lemma countNulls_le: "countNulls sample \<le> length sample"
  by (simp add: countNulls_filter)

lemma sampleIsText_nonempty:
  assumes "data \<noteq> []"
  shows "sampleIsText data \<longleftrightarrow> 10 * countNulls (take 8000 data) < length (take 8000 data)"
proof -
  let ?s = "take 8000 data"
  have pos: "0 < length ?s" using assms by (cases data) simp_all
  have le: "length ?s \<le> 8000" by simp
  have "sampleIsText data \<longleftrightarrow>
        round64 (of_nat (countNulls ?s) / of_nat (length ?s)) < round64 (1/10)"
    using pos by (simp add: sampleIsText_def num_div_def Let_def)
  then show ?thesis
    using zero_fraction_lt[OF pos le countNulls_le[of ?s]] by simp
qed

lemma sampleIsText_empty: "\<not> sampleIsText []"
  by (simp add: sampleIsText_def num_div_def countNulls_def)

text \<open>
  On a file that can be read and is not empty the classifier compares the exact
  fraction of zero bytes in the sample with one tenth; a file that cannot be read is
  binary.
\<close>

lemma classifier_rule:
  assumes "extensionOf path \<notin> set BINARY_EXT" "readFile e path = Some data" "data \<noteq> []"
  shows "isTextFile e path \<longleftrightarrow> 10 * countNulls (take 8000 data) < length (take 8000 data)"
  using assms by (simp add: isTextFile_def Let_def sampleIsText_nonempty)

lemma classifier_fails_closed:
  assumes "readFile e path = None"
  shows "\<not> isTextFile e path"
  using assms by (simp add: isTextFile_def Let_def)

lemma isTextFile_readable:
  assumes "isTextFile e f"
  obtains n d where "nodes e f = Some n" "nkind n = IsFile" "ndata n = Some d"
  using assms
  by (auto simp: isTextFile_def readFile_def Let_def split: if_splits option.splits)

lemma isTextFile_readTextFile:
  assumes "isTextFile e f"
  shows "\<exists>t. readTextFile e f = Some t"
proof -
  obtain n d where "nodes e f = Some n" "nkind n = IsFile" "ndata n = Some d"
    using assms by (rule isTextFile_readable)
  then show ?thesis by (simp add: readTextFile_def readFile_def)
qed

section \<open>Facts about the size gate\<close>

lemma gateStep_binary: "\<not> isTextFile e f \<Longrightarrow> gateStep e m b f st = Inr (Continue, st)"
  by (simp add: gateStep_def)

lemma gateStep_small:
  assumes "isTextFile e f" "nodes e f = Some n" "fsize n \<le> m"
  shows "gateStep e m b f st = Inr (Continue, pushInclude f st)"
  using assms by (simp add: gateStep_def Let_def)

lemma gateStep_yes:
  assumes "isTextFile e f" "yesFlag st"
  shows "gateStep e m b f st = Inr (Continue, pushInclude f st)"
proof -
  obtain n d where "nodes e f = Some n"
    using assms(1) by (rule isTextFile_readable)
  then show ?thesis using assms by (simp add: gateStep_def Let_def)
qed

lemma gateStep_prompt:
  assumes "isTextFile e f" "nodes e f = Some n" "m < fsize n" "\<not> yesFlag st"
    and "stdin st = input # rest"
  shows "gateStep e m b f st =
     (let st' = st\<lparr>prompted := prompted st @
                      [(displayName e b f, fsize n, estimateTokens (the (readTextFile e f)))],
                    stdin := rest\<rparr>;
          choice = choiceOf (lineOf input)
      in if choice = js ''a'' \<or> choice = js ''all''
         then Inr (Continue, pushInclude f (st'\<lparr>yesFlag := True\<rparr>))
         else if choice = js ''s'' \<or> choice = js ''skip''
         then Inr (Break, pushSkipped (displayName e b f) st')
         else if choice = js ''y'' \<or> choice = js ''yes''
         then Inr (Continue, pushInclude f st')
         else Inr (Continue, pushSkipped (displayName e b f) st'))"
proof -
  obtain t where t: "readTextFile e f = Some t"
    using isTextFile_readTextFile[OF assms(1)] by blast
  show ?thesis
    using assms t by (simp add: gateStep_def Let_def promptStderr_def)
qed

lemma gateLoop_append:
  "gateLoop e m b (xs @ ys) st =
     (case gateLoop e m b xs st of
        Inl err \<Rightarrow> Inl err
      | Inr (Break, st') \<Rightarrow> Inr (Break, st')
      | Inr (Continue, st') \<Rightarrow> gateLoop e m b ys st')"
  by (induction xs arbitrary: st) (auto split: sum.splits ctl.splits prod.splits)

lemma gateLoop_after:
  assumes "gateLoop e m b pre st0 = Inr (Continue, st)"
  shows "gateLoop e m b (pre @ rest) st0 = gateLoop e m b rest st"
  using assms by (simp add: gateLoop_append)

lemma gateLoop_yes:
  assumes "yesFlag st"
  shows "gateLoop e m b fs st =
           Inr (Continue, st\<lparr>filesToInclude := filesToInclude st @ filter (isTextFile e) fs\<rparr>)"
  using assms
proof (induction fs arbitrary: st)
  case Nil
  then show ?case by simp
next
  case (Cons f fs)
  show ?case
  proof (cases "isTextFile e f")
    case True
    have y: "yesFlag (pushInclude f st)" using Cons.prems by (simp add: pushInclude_def)
    show ?thesis
      using True Cons.prems Cons.IH[OF y]
      by (simp add: gateStep_yes pushInclude_def)
  next
    case False
    then show ?thesis using Cons.IH[OF Cons.prems] by (simp add: gateStep_binary)
  qed
qed

text \<open>
  What an iteration can do to the two result arrays, and what the whole loop adds to
  them: files that the classifier accepts, each at most once when the candidates are
  distinct.
\<close>

lemma gateStep_cases:
  assumes "gateStep e m b f st = Inr (c, st')"
  shows "(filesToInclude st' = filesToInclude st \<and> skippedFiles st' = skippedFiles st \<and> \<not> isTextFile e f)
       \<or> (isTextFile e f \<and> filesToInclude st' = filesToInclude st @ [f]
            \<and> skippedFiles st' = skippedFiles st)
       \<or> (isTextFile e f \<and> filesToInclude st' = filesToInclude st
            \<and> skippedFiles st' = skippedFiles st @ [displayName e b f])"
proof (cases "isTextFile e f")
  case False
  then show ?thesis using assms by (auto simp: gateStep_def)
next
  case True
  then show ?thesis
    using assms
    by (auto simp: gateStep_def Let_def promptStderr_def pushInclude_def pushSkipped_def
             split: option.splits if_splits list.splits)
qed

lemma gateLoop_shape:
  assumes "gateLoop e m b files st = Inr (c, st')"
  shows "\<exists>A B. filesToInclude st' = filesToInclude st @ A
             \<and> skippedFiles st' = skippedFiles st @ map (displayName e b) B
             \<and> set A \<union> set B \<subseteq> {f \<in> set files. isTextFile e f}
             \<and> (distinct files \<longrightarrow> distinct (A @ B))"
  using assms
proof (induction files arbitrary: st)
  case Nil
  then show ?case by auto
next
  case (Cons f files)
  from Cons.prems obtain c1 st1 where step: "gateStep e m b f st = Inr (c1, st1)"
    by (auto split: sum.splits)
  have rest: "c1 = Break \<and> st' = st1 \<or> c1 = Continue \<and> gateLoop e m b files st1 = Inr (c, st')"
    using Cons.prems step by (cases c1) auto
  have tail: "\<exists>A B. filesToInclude st' = filesToInclude st1 @ A
             \<and> skippedFiles st' = skippedFiles st1 @ map (displayName e b) B
             \<and> set A \<union> set B \<subseteq> {f \<in> set files. isTextFile e f}
             \<and> (distinct files \<longrightarrow> distinct (A @ B))"
  proof (cases "c1 = Break \<and> st' = st1")
    case True
    then have "filesToInclude st' = filesToInclude st1 @ []
         \<and> skippedFiles st' = skippedFiles st1 @ map (displayName e b) []
         \<and> set [] \<union> set [] \<subseteq> {f \<in> set files. isTextFile e f}
         \<and> (distinct files \<longrightarrow> distinct ([] @ ([]::jsstring list)))" by simp
    then show ?thesis by blast
  next
    case False
    then have "gateLoop e m b files st1 = Inr (c, st')" using rest by blast
    then show ?thesis by (rule Cons.IH)
  qed
  then obtain A B where AB: "filesToInclude st' = filesToInclude st1 @ A"
      "skippedFiles st' = skippedFiles st1 @ map (displayName e b) B"
      "set A \<union> set B \<subseteq> {f \<in> set files. isTextFile e f}"
      "distinct files \<longrightarrow> distinct (A @ B)" by blast
  from gateStep_cases[OF step] consider
      (none) "filesToInclude st1 = filesToInclude st" "skippedFiles st1 = skippedFiles st"
    | (inc) "isTextFile e f" "filesToInclude st1 = filesToInclude st @ [f]"
            "skippedFiles st1 = skippedFiles st"
    | (skp) "isTextFile e f" "filesToInclude st1 = filesToInclude st"
            "skippedFiles st1 = skippedFiles st @ [displayName e b f]"
    by blast
  then show ?case
  proof cases
    case none
    have "filesToInclude st' = filesToInclude st @ A
         \<and> skippedFiles st' = skippedFiles st @ map (displayName e b) B
         \<and> set A \<union> set B \<subseteq> {g \<in> set (f # files). isTextFile e g}
         \<and> (distinct (f # files) \<longrightarrow> distinct (A @ B))"
      using AB none by auto
    then show ?thesis by blast
  next
    case inc
    have "filesToInclude st' = filesToInclude st @ (f # A)
         \<and> skippedFiles st' = skippedFiles st @ map (displayName e b) B
         \<and> set (f # A) \<union> set B \<subseteq> {g \<in> set (f # files). isTextFile e g}
         \<and> (distinct (f # files) \<longrightarrow> distinct ((f # A) @ B))"
      using AB inc by auto
    then show ?thesis by blast
  next
    case skp
    have "filesToInclude st' = filesToInclude st @ A
         \<and> skippedFiles st' = skippedFiles st @ map (displayName e b) (f # B)
         \<and> set A \<union> set (f # B) \<subseteq> {g \<in> set (f # files). isTextFile e g}
         \<and> (distinct (f # files) \<longrightarrow> distinct (A @ (f # B)))"
      using AB skp by auto
    then show ?thesis by blast
  qed
qed

lemma gateLoop_included_text:
  assumes "gateLoop e m b files st = Inr (c, st')" "f \<in> set (filesToInclude st')"
  shows "f \<in> set (filesToInclude st) \<or> isTextFile e f"
proof -
  obtain A B where "filesToInclude st' = filesToInclude st @ A"
      "set A \<union> set B \<subseteq> {f \<in> set files. isTextFile e f}"
    using gateLoop_shape[OF assms(1)] by blast
  then show ?thesis using assms(2) by auto
qed

section \<open>Facts about the run\<close>

lemma set_filterFiles: "set (filterFiles e opts b allFiles) \<subseteq> set allFiles"
  by (auto simp: filterFiles_def Let_def)

lemma distinct_filterFiles: "distinct allFiles \<Longrightarrow> distinct (filterFiles e opts b allFiles)"
  by (auto simp: filterFiles_def Let_def)

lemma filterFiles_include:
  assumes "opt_include opts = Some pats" "pats \<noteq> []" "f \<in> set (filterFiles e opts b allFiles)"
  shows "matchesPattern e f pats b"
  using assms by (auto simp: filterFiles_def Let_def given_def split: if_splits)

lemma collectFiles_concat:
  assumes "collectFiles e ps acc = Inr allFiles"
  shows "\<exists>ls. map (\<lambda>p. getFiles e (resolve e p)) ps = map Inr ls \<and> allFiles = acc @ concat ls"
  using assms
proof (induction ps arbitrary: acc)
  case Nil
  then show ?case by simp
next
  case (Cons p ps)
  from Cons.prems obtain files where g: "getFiles e (resolve e p) = Inr files"
    and r: "collectFiles e ps (acc @ files) = Inr allFiles"
    by (auto split: sum.splits)
  from Cons.IH[OF r] obtain ls where
    "map (\<lambda>p. getFiles e (resolve e p)) ps = map Inr ls" "allFiles = (acc @ files) @ concat ls"
    by blast
  then have "map (\<lambda>p. getFiles e (resolve e p)) (p # ps) = map Inr (files # ls)
             \<and> allFiles = acc @ concat (files # ls)"
    using g by simp
  then show ?case by blast
qed

lemma main_stages:
  assumes "main e opts input = Inr out"
  obtains m allFiles c st outp s where
    "parseMaxSize (opt_maxSize opts) = Some m"
    "collectFiles e (opt_paths opts) [] = Inr allFiles"
    "gateLoop e m (baseDirOf e (opt_paths opts))
       (filterFiles e opts (baseDirOf e (opt_paths opts)) allFiles) (initialGate opts input)
       = Inr (c, st)"
    "buildOutput e (baseDirOf e (opt_paths opts)) (filesToInclude st) [] = Inr outp"
    "dispatch e opts (join [10] outp) = (s, None)"
    "out = \<lparr>included = filesToInclude st, skipped = skippedFiles st,
               requests = prompted st, body = join [10] outp,
               totalTokens = estimateTokens (join [10] outp), delivered = s\<rparr>"
  using assms
  by (auto simp: main_def Let_def split: option.splits sum.splits prod.splits)

lemma main_run:
  assumes "parseMaxSize (opt_maxSize opts) = Some m"
    and "collectFiles e (opt_paths opts) [] = Inr allFiles"
    and "gateLoop e m (baseDirOf e (opt_paths opts))
           (filterFiles e opts (baseDirOf e (opt_paths opts)) allFiles) (initialGate opts input)
         = Inr (c, st)"
    and "buildOutput e (baseDirOf e (opt_paths opts)) (filesToInclude st) [] = Inr outp"
    and "dispatch e opts (join [10] outp) = (s, None)"
  shows "main e opts input =
           Inr \<lparr>included = filesToInclude st, skipped = skippedFiles st,
                requests = prompted st, body = join [10] outp,
                totalTokens = estimateTokens (join [10] outp), delivered = s\<rparr>"
  using assms by (simp add: main_def Let_def)

lemma parseMaxSize_100k: "parseMaxSize (js ''100k'') = Some 102400"
  by (simp add: parseMaxSize_def js_def isDigit_def asciiUpper_def parseInt_def
                toLowerCase_def lowerUnit_def)

lemma trimEnd_append_whitespace:
  assumes "list_all isWhiteSpace ws"
  shows "trimEnd (s @ ws) = trimEnd s"
proof -
  have "dropWhile isWhiteSpace (rev ws @ rev s) = dropWhile isWhiteSpace (rev s)"
    using assms by (intro dropWhile_append2) (simp add: list_all_iff)
  then show ?thesis by (simp add: trimEnd_def)
qed

lemma trimEnd_console_log: "trimEnd (js ''console.log(4)'') = js ''console.log(4)''"
  by (simp add: trimEnd_def js_def isWhiteSpace_def)

lemma dispatch_ok:
  assumes "truthy (opt_output opts) \<Longrightarrow> writable e (the (opt_output opts))"
  shows "snd (dispatch e opts r) = None"
  using assms by (auto simp: dispatch_def Let_def)

lemma buildOutput_ok:
  assumes "list_all (isTextFile e) fs"
  shows "\<exists>outp. buildOutput e b fs acc = Inr outp"
  using assms
proof (induction fs arbitrary: acc)
  case Nil
  then show ?case by simp
next
  case (Cons f fs)
  then obtain t where "readTextFile e f = Some t"
    using isTextFile_readTextFile[of e f] by auto
  then show ?case using Cons by (simp add: Let_def)
qed

lemma main_selection:
  assumes "parseMaxSize (opt_maxSize opts) = Some m"
    and "collectFiles e (opt_paths opts) [] = Inr allFiles"
    and "gateLoop e m (baseDirOf e (opt_paths opts))
           (filterFiles e opts (baseDirOf e (opt_paths opts)) allFiles) (initialGate opts input)
         = Inr (c, st)"
    and "truthy (opt_output opts) \<Longrightarrow> writable e (the (opt_output opts))"
  shows "\<exists>out. main e opts input = Inr out \<and> included out = filesToInclude st
           \<and> skipped out = skippedFiles st \<and> requests out = prompted st"
proof -
  have "isTextFile e f" if "f \<in> set (filesToInclude st)" for f
    using gateLoop_included_text[OF assms(3) that] by (simp add: initialGate_def)
  then have "list_all (isTextFile e) (filesToInclude st)" by (simp add: list_all_iff)
  then obtain outp where b: "buildOutput e (baseDirOf e (opt_paths opts)) (filesToInclude st) [] = Inr outp"
    using buildOutput_ok by blast
  obtain s where d: "dispatch e opts (join [10] outp) = (s, None)"
    using dispatch_ok[OF assms(4)] by (metis prod.collapse)
  show ?thesis using main_run[OF assms(1,2,3) b d] by simp
qed

lemma atMostOne_4:
  "atMostOne [a, b, c, d] \<longleftrightarrow>
     \<not> (a \<and> b) \<and> \<not> (a \<and> c) \<and> \<not> (a \<and> d) \<and> \<not> (b \<and> c) \<and> \<not> (b \<and> d) \<and> \<not> (c \<and> d)"
  by (auto simp: atMostOne_def)

section \<open>The example directory, evaluated\<close>

lemmas sample_defs = sampleEnv_def sampleNodes_def js_def

lemma sample_node_a:
  "nodes sampleEnv (js ''/w/a.ts'') =
     Some \<lparr>nkind = IsFile, fsize = 14, ndata = Some (map of_char ''console.log(4)'')\<rparr>"
  by (simp add: sample_defs)

lemma sample_node_b:
  "nodes sampleEnv (js ''/w/b.ts'') =
     Some \<lparr>nkind = IsFile, fsize = 14, ndata = Some (map of_char ''console.log(5)'')\<rparr>"
  by (simp add: sample_defs)

lemma sample_node_empty:
  "nodes sampleEnv (js ''/w/empty.txt'') = Some \<lparr>nkind = IsFile, fsize = 0, ndata = Some []\<rparr>"
  by (simp add: sample_defs)

lemma sample_ext:
  "extensionOf (js ''/w/a.ts'') = js ''.ts''"
  "extensionOf (js ''/w/b.ts'') = js ''.ts''"
  "extensionOf (js ''/w/empty.txt'') = js ''.txt''"
  by (simp_all add: extensionOf_def lastIndexOf_def substring_def toLowerCase_def lowerUnit_def js_def)

lemma sample_ext_text:
  "js ''.ts'' \<notin> set BINARY_EXT" "js ''.txt'' \<notin> set BINARY_EXT"
  by (simp_all add: BINARY_EXT_def js_def)

lemma sample_text_a: "isTextFile sampleEnv (js ''/w/a.ts'')"
  by (simp add: isTextFile_def Let_def sample_ext sample_ext_text readFile_def sample_node_a
                sampleIsText_nonempty countNulls_def)

lemma sample_text_b: "isTextFile sampleEnv (js ''/w/b.ts'')"
  by (simp add: isTextFile_def Let_def sample_ext sample_ext_text readFile_def sample_node_b
                sampleIsText_nonempty countNulls_def)

lemma sample_read_empty: "readFile sampleEnv (js ''/w/empty.txt'') = Some []"
  by (simp add: readFile_def sample_node_empty)

lemma sample_text_empty: "\<not> isTextFile sampleEnv (js ''/w/empty.txt'')"
  by (simp add: isTextFile_def Let_def sample_read_empty sampleIsText_empty)

lemma sample_readText_a: "readTextFile sampleEnv (js ''/w/a.ts'') = Some (js ''console.log(4)'')"
  by (simp add: readTextFile_def readFile_def sample_node_a) (simp add: sample_defs)

lemma sample_names:
  "displayName sampleEnv (js ''/w'') (js ''/w/a.ts'') = js ''a.ts''"
  "displayName sampleEnv (js ''/w'') (js ''/w/b.ts'') = js ''b.ts''"
  "displayName sampleEnv (js ''/w'') (js ''/w/empty.txt'') = js ''empty.txt''"
  by (simp_all add: displayName_def Let_def sample_defs)

lemma sample_resolve:
  "resolve sampleEnv (js ''a.ts'') = js ''/w/a.ts''"
  "resolve sampleEnv (js ''/w'') = js ''/w''"
  by (simp_all add: sample_defs)

lemma sample_getFiles_a: "getFiles sampleEnv (js ''/w/a.ts'') = Inr [js ''/w/a.ts'']"
  by (simp add: getFiles_def sample_node_a)

lemma sample_getFiles_w:
  "getFiles sampleEnv (js ''/w'') = Inr [js ''/w/a.ts'', js ''/w/b.ts'', js ''/w/empty.txt'']"
  by (simp add: getFiles_def sample_defs)

lemma sample_base:
  "baseDirOf sampleEnv [js ''a.ts''] = js ''/w''"
  "baseDirOf sampleEnv [js ''a.ts'', js ''a.ts''] = js ''/w''"
  "baseDirOf sampleEnv [js ''/w''] = js ''/w''"
  by (simp_all add: baseDirOf_def sample_defs)

lemma sample_tokens: "estimateTokens (js ''console.log(4)'') = Fin 4"
  using ceiling_round64_tokens[of 14] by (simp add: estimateTokens_def num_div_def js_def)

lemma sample_choices:
  "choiceOf (lineOf (js '' ALL'' @ [13, 10])) = js ''all''"
  "choiceOf (lineOf (js ''Skip'' @ [10])) = js ''skip''"
  by (simp_all add: choiceOf_def lineOf_def stripNewline_def trim_def trimStart_def trimEnd_def
                    isWhiteSpace_def toLowerCase_def lowerUnit_def js_def)

lemma sample_loop_twice:
  "gateLoop sampleEnv 102400 (js ''/w'') [js ''/w/a.ts'', js ''/w/a.ts''] st
     = Inr (Continue, pushInclude (js ''/w/a.ts'') (pushInclude (js ''/w/a.ts'') st))"
  by (simp add: gateStep_small[OF sample_text_a sample_node_a])

lemma sample_loop_one:
  "gateLoop sampleEnv 102400 (js ''/w'') [js ''/w/a.ts''] st
     = Inr (Continue, pushInclude (js ''/w/a.ts'') st)"
  by (simp add: gateStep_small[OF sample_text_a sample_node_a])

lemma sample_loop_dir:
  "gateLoop sampleEnv 102400 (js ''/w'') [js ''/w/a.ts'', js ''/w/b.ts'', js ''/w/empty.txt''] st
     = Inr (Continue, pushInclude (js ''/w/b.ts'') (pushInclude (js ''/w/a.ts'') st))"
  by (simp add: gateStep_small[OF sample_text_a sample_node_a]
                gateStep_small[OF sample_text_b sample_node_b]
                gateStep_binary[OF sample_text_empty])

lemma sample_run_twice:
  "\<exists>out. main sampleEnv (sampleOpts\<lparr>opt_paths := [js ''a.ts'', js ''a.ts'']\<rparr>) [] = Inr out
         \<and> included out = [js ''/w/a.ts'', js ''/w/a.ts'']"
proof -
  let ?opts = "sampleOpts\<lparr>opt_paths := [js ''a.ts'', js ''a.ts'']\<rparr>"
  have p: "parseMaxSize (opt_maxSize ?opts) = Some 102400"
    by (simp add: sampleOpts_def parseMaxSize_100k)
  have c: "collectFiles sampleEnv (opt_paths ?opts) [] = Inr [js ''/w/a.ts'', js ''/w/a.ts'']"
    by (simp add: sample_resolve sample_getFiles_a)
  have l: "gateLoop sampleEnv 102400 (baseDirOf sampleEnv (opt_paths ?opts))
             (filterFiles sampleEnv ?opts (baseDirOf sampleEnv (opt_paths ?opts))
                [js ''/w/a.ts'', js ''/w/a.ts''])
             (initialGate ?opts [])
           = Inr (Continue, pushInclude (js ''/w/a.ts'') (pushInclude (js ''/w/a.ts'') (initialGate ?opts [])))"
  proof -
    have b: "baseDirOf sampleEnv (opt_paths ?opts) = js ''/w''" by (simp add: sample_base)
    have f: "filterFiles sampleEnv ?opts (js ''/w'') [js ''/w/a.ts'', js ''/w/a.ts'']
               = [js ''/w/a.ts'', js ''/w/a.ts'']"
      by (simp add: filterFiles_def given_def sampleOpts_def)
    show ?thesis unfolding b f by (rule sample_loop_twice)
  qed
  have w: "truthy (opt_output ?opts) \<Longrightarrow> writable sampleEnv (the (opt_output ?opts))"
    by (simp add: sampleEnv_def)
  show ?thesis
    using main_selection[OF p c l w] by (auto simp: pushInclude_def initialGate_def)
qed

lemma sample_run_include:
  "\<exists>out. main sampleEnv (sampleOpts\<lparr>opt_include := Some [js ''/w/a.ts'']\<rparr>) [] = Inr out
         \<and> included out = [js ''/w/a.ts'']"
proof -
  let ?opts = "sampleOpts\<lparr>opt_include := Some [js ''/w/a.ts'']\<rparr>"
  have p: "parseMaxSize (opt_maxSize ?opts) = Some 102400"
    by (simp add: sampleOpts_def parseMaxSize_100k)
  have c: "collectFiles sampleEnv (opt_paths ?opts) [] = Inr [js ''/w/a.ts'']"
    by (simp add: sampleOpts_def sample_resolve sample_getFiles_a)
  have f: "filterFiles sampleEnv ?opts (js ''/w'') [js ''/w/a.ts''] = [js ''/w/a.ts'']"
    by (simp add: filterFiles_def given_def sampleOpts_def matchesPattern_def Let_def)
       (simp add: sampleEnv_def)
  have l: "gateLoop sampleEnv 102400 (baseDirOf sampleEnv (opt_paths ?opts))
             (filterFiles sampleEnv ?opts (baseDirOf sampleEnv (opt_paths ?opts)) [js ''/w/a.ts''])
             (initialGate ?opts [])
           = Inr (Continue, pushInclude (js ''/w/a.ts'') (initialGate ?opts []))"
  proof -
    have b: "baseDirOf sampleEnv (opt_paths ?opts) = js ''/w''"
      by (simp add: sample_base sampleOpts_def)
    show ?thesis unfolding b f by (rule sample_loop_one)
  qed
  have w: "truthy (opt_output ?opts) \<Longrightarrow> writable sampleEnv (the (opt_output ?opts))"
    by (simp add: sampleEnv_def)
  show ?thesis
    using main_selection[OF p c l w] by (auto simp: pushInclude_def initialGate_def)
qed

lemma sample_run_dir:
  "\<exists>out. main sampleEnv (sampleOpts\<lparr>opt_paths := [js ''/w'']\<rparr>) [] = Inr out
         \<and> included out = [js ''/w/a.ts'', js ''/w/b.ts''] \<and> skipped out = []"
proof -
  let ?opts = "sampleOpts\<lparr>opt_paths := [js ''/w'']\<rparr>"
  have p: "parseMaxSize (opt_maxSize ?opts) = Some 102400"
    by (simp add: sampleOpts_def parseMaxSize_100k)
  have c: "collectFiles sampleEnv (opt_paths ?opts) []
             = Inr [js ''/w/a.ts'', js ''/w/b.ts'', js ''/w/empty.txt'']"
    by (simp add: sample_resolve sample_getFiles_w)
  have l: "gateLoop sampleEnv 102400 (baseDirOf sampleEnv (opt_paths ?opts))
             (filterFiles sampleEnv ?opts (baseDirOf sampleEnv (opt_paths ?opts))
                [js ''/w/a.ts'', js ''/w/b.ts'', js ''/w/empty.txt''])
             (initialGate ?opts [])
           = Inr (Continue, pushInclude (js ''/w/b.ts'') (pushInclude (js ''/w/a.ts'') (initialGate ?opts [])))"
  proof -
    have b: "baseDirOf sampleEnv (opt_paths ?opts) = js ''/w''" by (simp add: sample_base)
    have f: "filterFiles sampleEnv ?opts (js ''/w'')
               [js ''/w/a.ts'', js ''/w/b.ts'', js ''/w/empty.txt'']
               = [js ''/w/a.ts'', js ''/w/b.ts'', js ''/w/empty.txt'']"
      by (simp add: filterFiles_def given_def sampleOpts_def)
    show ?thesis unfolding b f by (rule sample_loop_dir)
  qed
  have w: "truthy (opt_output ?opts) \<Longrightarrow> writable sampleEnv (the (opt_output ?opts))"
    by (simp add: sampleEnv_def)
  show ?thesis
    using main_selection[OF p c l w] by (auto simp: pushInclude_def initialGate_def)
qed

section \<open>The claims\<close>

subsection \<open>C1: the answer \<open>a\<close> or \<open>all\<close> is sticky\<close>

text \<open>
  Claim C1. Take a run of the size gate that has gone through the candidates \<open>pre\<close>
  without stopping and has not been told to include everything. If the next candidate
  \<open>f\<close> is accepted by the classifier and larger than the threshold, the operator is
  asked, and if the answer, lower-cased and trimmed, is \<open>a\<close> or \<open>all\<close>, then \<open>f\<close> is
  included and so is every later candidate that the classifier accepts, whatever its
  size, in order: exactly one request is issued (the one for \<open>f\<close>), exactly one answer
  is consumed, nothing is added to the skipped sequence, and the loop runs to its end.
\<close>

theorem all_answer_is_sticky:
  assumes "gateLoop e m b pre st0 = Inr (Continue, st)"
    and "\<not> yesFlag st"
    and "isTextFile e f" and "nodes e f = Some n" and "m < fsize n"
    and "stdin st = input # rest"
    and "choiceOf (lineOf input) = js ''a'' \<or> choiceOf (lineOf input) = js ''all''"
  shows "gateLoop e m b (pre @ f # post) st0 =
           Inr (Continue,
                st\<lparr>yesFlag := True,
                   filesToInclude := filesToInclude st @ f # filter (isTextFile e) post,
                   prompted := prompted st @
                     [(displayName e b f, fsize n, estimateTokens (the (readTextFile e f)))],
                   stdin := rest\<rparr>)"
proof -
  let ?st' = "st\<lparr>prompted := prompted st @
                      [(displayName e b f, fsize n, estimateTokens (the (readTextFile e f)))],
                  stdin := rest\<rparr>"
  have step: "gateStep e m b f st = Inr (Continue, pushInclude f (?st'\<lparr>yesFlag := True\<rparr>))"
    using gateStep_prompt[OF assms(3,4,5,2,6), of b] assms(7) by (simp add: Let_def)
  have y: "yesFlag (pushInclude f (?st'\<lparr>yesFlag := True\<rparr>))" by (simp add: pushInclude_def)
  have "gateLoop e m b (pre @ f # post) st0 = gateLoop e m b (f # post) st"
    by (rule gateLoop_after[OF assms(1)])
  also have "\<dots> = gateLoop e m b post (pushInclude f (?st'\<lparr>yesFlag := True\<rparr>))"
    by (simp add: step)
  also have "\<dots> = Inr (Continue, (pushInclude f (?st'\<lparr>yesFlag := True\<rparr>))
                \<lparr>filesToInclude := filesToInclude (pushInclude f (?st'\<lparr>yesFlag := True\<rparr>))
                                     @ filter (isTextFile e) post\<rparr>)"
    by (rule gateLoop_yes[OF y])
  finally show ?thesis by (simp add: pushInclude_def)
qed

text \<open>
  In the example directory with a threshold of 10 bytes, the answer \<open>" ALL"\<close> followed
  by a carriage return and a newline includes \<open>a.ts\<close> and then \<open>b.ts\<close>, which is as
  large, with one request.
\<close>

theorem all_answer_is_sticky_witness:
  "isTextFile sampleEnv (js ''/w/a.ts'')
   \<and> choiceOf (lineOf (js '' ALL'' @ [13, 10])) = js ''all''
   \<and> gateLoop sampleEnv 10 (js ''/w'') ([] @ js ''/w/a.ts'' # [js ''/w/b.ts'', js ''/w/empty.txt''])
       \<lparr>yesFlag = False, filesToInclude = [], skippedFiles = [], prompted = [],
        stdin = [js '' ALL'' @ [13, 10]]\<rparr>
     = Inr (Continue,
         \<lparr>yesFlag = True, filesToInclude = [js ''/w/a.ts'', js ''/w/b.ts''], skippedFiles = [],
          prompted = [(js ''a.ts'', 14, Fin 4)], stdin = []\<rparr>)"
proof -
  let ?st = "\<lparr>yesFlag = False, filesToInclude = [], skippedFiles = [], prompted = [],
              stdin = [js '' ALL'' @ [13, 10]]\<rparr>"
  have pre: "gateLoop sampleEnv 10 (js ''/w'') [] ?st = Inr (Continue, ?st)" by simp
  have no: "\<not> yesFlag ?st" by simp
  have big: "10 < fsize \<lparr>nkind = IsFile, fsize = 14, ndata = Some (map of_char ''console.log(4)'')\<rparr>"
    by simp
  have inp: "stdin ?st = (js '' ALL'' @ [13, 10]) # []" by simp
  have ans: "choiceOf (lineOf (js '' ALL'' @ [13, 10])) = js ''a''
             \<or> choiceOf (lineOf (js '' ALL'' @ [13, 10])) = js ''all''"
    by (simp add: sample_choices)
  show ?thesis
    using all_answer_is_sticky[OF pre no sample_text_a sample_node_a big inp ans,
            of "[js ''/w/b.ts'', js ''/w/empty.txt'']"]
    by (simp add: sample_text_a sample_text_b sample_text_empty sample_choices sample_names
                  sample_readText_a sample_tokens)
qed

subsection \<open>C2: the answer \<open>s\<close> or \<open>skip\<close> stops the loop\<close>

text \<open>
  Claim C2. In the same situation, if the answer is \<open>s\<close> or \<open>skip\<close>, the display name
  of \<open>f\<close> is appended to the skipped sequence and the loop ends at once: the final
  state does not depend on the remaining candidates \<open>post\<close>, none of which is added to
  the included or to the skipped sequence, and no further answer is consumed.
\<close>

theorem skip_answer_stops:
  assumes "gateLoop e m b pre st0 = Inr (Continue, st)"
    and "\<not> yesFlag st"
    and "isTextFile e f" and "nodes e f = Some n" and "m < fsize n"
    and "stdin st = input # rest"
    and "choiceOf (lineOf input) = js ''s'' \<or> choiceOf (lineOf input) = js ''skip''"
  shows "gateLoop e m b (pre @ f # post) st0 =
           Inr (Break,
                st\<lparr>skippedFiles := skippedFiles st @ [displayName e b f],
                   prompted := prompted st @
                     [(displayName e b f, fsize n, estimateTokens (the (readTextFile e f)))],
                   stdin := rest\<rparr>)"
proof -
  have neq: "js ''s'' \<noteq> js ''a''" "js ''s'' \<noteq> js ''all''" "js ''skip'' \<noteq> js ''a''" "js ''skip'' \<noteq> js ''all''"
    by (simp_all add: js_def)
  have step: "gateStep e m b f st =
      Inr (Break, pushSkipped (displayName e b f)
        (st\<lparr>prompted := prompted st @
                      [(displayName e b f, fsize n, estimateTokens (the (readTextFile e f)))],
                  stdin := rest\<rparr>))"
    using gateStep_prompt[OF assms(3,4,5,2,6), of b] assms(7) neq by (auto simp: Let_def)
  have "gateLoop e m b (pre @ f # post) st0 = gateLoop e m b (f # post) st"
    by (rule gateLoop_after[OF assms(1)])
  then show ?thesis by (simp add: step pushSkipped_def)
qed

text \<open>
  In the example directory the answer \<open>Skip\<close> leaves \<open>b.ts\<close> unvisited and the second
  answer unread.
\<close>

theorem skip_answer_stops_witness:
  "isTextFile sampleEnv (js ''/w/a.ts'')
   \<and> choiceOf (lineOf (js ''Skip'' @ [10])) = js ''skip''
   \<and> gateLoop sampleEnv 10 (js ''/w'') ([] @ js ''/w/a.ts'' # [js ''/w/b.ts'', js ''/w/empty.txt''])
       \<lparr>yesFlag = False, filesToInclude = [], skippedFiles = [], prompted = [],
        stdin = [js ''Skip'' @ [10], js ''y'' @ [10]]\<rparr>
     = Inr (Break,
         \<lparr>yesFlag = False, filesToInclude = [], skippedFiles = [js ''a.ts''],
          prompted = [(js ''a.ts'', 14, Fin 4)], stdin = [js ''y'' @ [10]]\<rparr>)"
proof -
  let ?st = "\<lparr>yesFlag = False, filesToInclude = [], skippedFiles = [], prompted = [],
              stdin = [js ''Skip'' @ [10], js ''y'' @ [10]]\<rparr>"
  have pre: "gateLoop sampleEnv 10 (js ''/w'') [] ?st = Inr (Continue, ?st)" by simp
  have no: "\<not> yesFlag ?st" by simp
  have big: "10 < fsize \<lparr>nkind = IsFile, fsize = 14, ndata = Some (map of_char ''console.log(4)'')\<rparr>"
    by simp
  have inp: "stdin ?st = (js ''Skip'' @ [10]) # [js ''y'' @ [10]]" by simp
  have ans: "choiceOf (lineOf (js ''Skip'' @ [10])) = js ''s''
             \<or> choiceOf (lineOf (js ''Skip'' @ [10])) = js ''skip''"
    by (simp add: sample_choices)
  show ?thesis
    using skip_answer_stops[OF pre no sample_text_a sample_node_a big inp ans,
            of "[js ''/w/b.ts'', js ''/w/empty.txt'']"]
    by (simp add: sample_text_a sample_choices sample_names sample_readText_a sample_tokens)
qed

subsection \<open>C3: a file within the threshold is included without a prompt\<close>

text \<open>
  Claim C3. If the run has not stopped and the next candidate \<open>f\<close> is accepted by the
  classifier and its size is at most the threshold, the loop goes on with \<open>f\<close> appended
  to the included sequence and the state otherwise unchanged: no request is issued and
  no answer consumed, whatever the flag \<open>opts.yes\<close> holds at that moment.
\<close>

theorem small_file_always_included:
  assumes "gateLoop e m b pre st0 = Inr (Continue, st)"
    and "isTextFile e f" and "nodes e f = Some n" and "fsize n \<le> m"
  shows "gateLoop e m b (pre @ f # post) st0 =
           gateLoop e m b post (st\<lparr>filesToInclude := filesToInclude st @ [f]\<rparr>)"
proof -
  have "gateLoop e m b (pre @ f # post) st0 = gateLoop e m b (f # post) st"
    by (rule gateLoop_after[OF assms(1)])
  then show ?thesis using gateStep_small[OF assms(2,3,4), of b st] by (simp add: pushInclude_def)
qed

theorem small_file_always_included_witness:
  "isTextFile sampleEnv (js ''/w/a.ts'')
   \<and> fsize \<lparr>nkind = IsFile, fsize = 14, ndata = Some (map of_char ''console.log(4)'')\<rparr> \<le> 20
   \<and> gateLoop sampleEnv 20 (js ''/w'') ([] @ js ''/w/a.ts'' # [js ''/w/empty.txt''])
       \<lparr>yesFlag = False, filesToInclude = [], skippedFiles = [], prompted = [],
        stdin = [js ''n'' @ [10]]\<rparr>
     = Inr (Continue,
         \<lparr>yesFlag = False, filesToInclude = [js ''/w/a.ts''], skippedFiles = [], prompted = [],
          stdin = [js ''n'' @ [10]]\<rparr>)"
proof -
  let ?st = "\<lparr>yesFlag = False, filesToInclude = [], skippedFiles = [], prompted = [],
              stdin = [js ''n'' @ [10]]\<rparr>"
  have pre: "gateLoop sampleEnv 20 (js ''/w'') [] ?st = Inr (Continue, ?st)" by simp
  have small: "fsize \<lparr>nkind = IsFile, fsize = 14, ndata = Some (map of_char ''console.log(4)'')\<rparr> \<le> 20"
    by simp
  show ?thesis
    using small_file_always_included[OF pre sample_text_a sample_node_a small,
            of "[js ''/w/empty.txt'']"]
    by (simp add: sample_text_a gateStep_binary[OF sample_text_empty])
qed

subsection \<open>C4: the resolver concatenates the inputs and removes no duplicate\<close>

text \<open>
  Claim C4, amended. In every successful run the resolved sequence is the
  concatenation, in input order, of the file lists of the single inputs; nothing removes
  a file that two inputs share. Whenever that sequence is duplicate-free and display
  names tell its files apart, no file appears twice in the included sequence, and each
  resolved file is in at most one of the categories included, skipped, excluded by the
  filter, excluded as binary.
\<close>

theorem resolver_concatenates_inputs:
  assumes "main e opts input = Inr out"
  shows "\<exists>ls. map (\<lambda>p. getFiles e (resolve e p)) (opt_paths opts) = map Inr ls
            \<and> collectFiles e (opt_paths opts) [] = Inr (concat ls)
            \<and> (distinct (concat ls)
                 \<and> inj_on (displayName e (baseDirOf e (opt_paths opts))) (set (concat ls))
               \<longrightarrow> distinct (included out)
                   \<and> list_all (\<lambda>f. atMostOne (categoriesOf e opts (concat ls) out f)) (concat ls))"
proof -
  let ?b = "baseDirOf e (opt_paths opts)"
  obtain m allFiles c st outp s where
    coll: "collectFiles e (opt_paths opts) [] = Inr allFiles" and
    loop: "gateLoop e m ?b (filterFiles e opts ?b allFiles) (initialGate opts input) = Inr (c, st)" and
    out: "out = \<lparr>included = filesToInclude st, skipped = skippedFiles st,
               requests = prompted st, body = join [10] outp,
               totalTokens = estimateTokens (join [10] outp), delivered = s\<rparr>"
    using assms by (rule main_stages)
  obtain ls where ls: "map (\<lambda>p. getFiles e (resolve e p)) (opt_paths opts) = map Inr ls"
      "allFiles = concat ls"
    using collectFiles_concat[OF coll] by auto
  let ?filtered = "filterFiles e opts ?b allFiles"
  obtain A B where AB: "filesToInclude st = A" "skippedFiles st = map (displayName e ?b) B"
      "set A \<union> set B \<subseteq> {f \<in> set ?filtered. isTextFile e f}"
      "distinct ?filtered \<longrightarrow> distinct (A @ B)"
    using gateLoop_shape[OF loop] by (auto simp: initialGate_def)
  have sub: "set ?filtered \<subseteq> set allFiles" by (rule set_filterFiles)
  have "distinct (included out)
        \<and> list_all (\<lambda>f. atMostOne (categoriesOf e opts allFiles out f)) allFiles"
    if d: "distinct allFiles" and inj: "inj_on (displayName e ?b) (set allFiles)"
  proof
    have dAB: "distinct (A @ B)" using AB(4) distinct_filterFiles[OF d] by blast
    then show "distinct (included out)" by (simp add: out AB(1))
    have "atMostOne (categoriesOf e opts allFiles out f)" if f: "f \<in> set allFiles" for f
    proof -
      have skB: "f \<in> set B" if "displayName e ?b f \<in> set (skipped out)"
      proof -
        from that obtain g where g: "g \<in> set B" "displayName e ?b g = displayName e ?b f"
          by (auto simp: out AB(2))
        then have "g \<in> set allFiles" using AB(3) sub by auto
        then have "g = f" using inj f g(2) by (auto dest: inj_onD)
        then show ?thesis using g(1) by simp
      qed
      have inA: "f \<in> set (included out) \<longleftrightarrow> f \<in> set A" by (simp add: out AB(1))
      have A_ok: "f \<in> set A \<Longrightarrow> f \<in> set ?filtered \<and> isTextFile e f \<and> f \<notin> set B"
        using AB(3) dAB by auto
      have B_ok: "f \<in> set B \<Longrightarrow> f \<in> set ?filtered \<and> isTextFile e f"
        using AB(3) by auto
      show ?thesis
        unfolding categoriesOf_def Let_def atMostOne_4
        using skB inA A_ok B_ok by blast
    qed
    then show "list_all (\<lambda>f. atMostOne (categoriesOf e opts allFiles out f)) allFiles"
      by (simp add: list_all_iff)
  qed
  then show ?thesis using ls coll by blast
qed

text \<open>The run on the directory \<open>/w\<close> itself.\<close>

theorem resolver_concatenates_inputs_witness:
  "\<exists>out. main sampleEnv (sampleOpts\<lparr>opt_paths := [js ''/w'']\<rparr>) [] = Inr out
     \<and> collectFiles sampleEnv [js ''/w''] []
         = Inr (concat [[js ''/w/a.ts'', js ''/w/b.ts'', js ''/w/empty.txt'']])
     \<and> distinct (concat [[js ''/w/a.ts'', js ''/w/b.ts'', js ''/w/empty.txt'']])
     \<and> inj_on (displayName sampleEnv (js ''/w''))
           (set (concat [[js ''/w/a.ts'', js ''/w/b.ts'', js ''/w/empty.txt'']]))
     \<and> included out = [js ''/w/a.ts'', js ''/w/b.ts'']
     \<and> distinct (included out)
     \<and> list_all (\<lambda>f. atMostOne (categoriesOf sampleEnv (sampleOpts\<lparr>opt_paths := [js ''/w'']\<rparr>)
                          [js ''/w/a.ts'', js ''/w/b.ts'', js ''/w/empty.txt''] out f))
          [js ''/w/a.ts'', js ''/w/b.ts'', js ''/w/empty.txt'']"
proof -
  let ?opts = "sampleOpts\<lparr>opt_paths := [js ''/w'']\<rparr>"
  let ?all = "[js ''/w/a.ts'', js ''/w/b.ts'', js ''/w/empty.txt'']"
  obtain out where run: "main sampleEnv ?opts [] = Inr out"
      and inc: "included out = [js ''/w/a.ts'', js ''/w/b.ts'']"
    using sample_run_dir by blast
  obtain ls where ls: "map (\<lambda>p. getFiles sampleEnv (resolve sampleEnv p)) (opt_paths ?opts) = map Inr ls"
      and coll: "collectFiles sampleEnv (opt_paths ?opts) [] = Inr (concat ls)"
      and imp: "distinct (concat ls)
                 \<and> inj_on (displayName sampleEnv (baseDirOf sampleEnv (opt_paths ?opts))) (set (concat ls))
               \<longrightarrow> distinct (included out)
                   \<and> list_all (\<lambda>f. atMostOne (categoriesOf sampleEnv ?opts (concat ls) out f)) (concat ls)"
    using resolver_concatenates_inputs[OF run] by blast
  have "ls = [?all]" using ls by (auto simp: sample_resolve sample_getFiles_w)
  then have cl: "concat ls = ?all" by simp
  have d: "distinct ?all" by (simp add: js_def)
  have i: "inj_on (displayName sampleEnv (js ''/w'')) (set ?all)"
    by (simp add: displayName_def Let_def sample_defs)
  have b: "baseDirOf sampleEnv (opt_paths ?opts) = js ''/w''" by (simp add: sample_base)
  show ?thesis
    using run inc coll imp d i unfolding cl b by auto
qed

text \<open>
  As the claim was stated it fails: naming \<open>a.ts\<close> twice on the command line resolves
  it twice and includes it twice.
\<close>

theorem repeated_input_counterexample:
  "collectFiles sampleEnv [js ''a.ts'', js ''a.ts''] [] = Inr [js ''/w/a.ts'', js ''/w/a.ts'']
   \<and> map_sum id included (main sampleEnv (sampleOpts\<lparr>opt_paths := [js ''a.ts'', js ''a.ts'']\<rparr>) [])
       = Inr [js ''/w/a.ts'', js ''/w/a.ts'']
   \<and> \<not> distinct [js ''/w/a.ts'', js ''/w/a.ts'']"
  using sample_run_twice by (auto simp: sample_resolve sample_getFiles_a)

subsection \<open>C5: an included file matches an include pattern by either form of its path\<close>

text \<open>
  Claim C5, amended. In every successful run with a non-empty include pattern set,
  every file of the included sequence has a relative path or an absolute path that
  matches at least one include pattern.
\<close>

theorem included_matches_include_pattern:
  assumes "main e opts input = Inr out"
    and "opt_include opts = Some pats" and "pats \<noteq> []"
  shows "list_all
           (\<lambda>f. list_ex (\<lambda>pattern.
                    globTest e pattern (relative e (baseDirOf e (opt_paths opts)) f)
                    \<or> globTest e pattern f) pats)
           (included out)"
proof -
  let ?b = "baseDirOf e (opt_paths opts)"
  obtain m allFiles c st outp s where
    loop: "gateLoop e m ?b (filterFiles e opts ?b allFiles) (initialGate opts input) = Inr (c, st)" and
    out: "out = \<lparr>included = filesToInclude st, skipped = skippedFiles st,
               requests = prompted st, body = join [10] outp,
               totalTokens = estimateTokens (join [10] outp), delivered = s\<rparr>"
    using assms(1) by (rule main_stages)
  obtain A B where AB: "filesToInclude st = A"
      "set A \<union> set B \<subseteq> {f \<in> set (filterFiles e opts ?b allFiles). isTextFile e f}"
    using gateLoop_shape[OF loop] by (auto simp: initialGate_def)
  have "matchesPattern e f pats ?b" if "f \<in> set (included out)" for f
  proof -
    have "f \<in> set (filterFiles e opts ?b allFiles)" using that AB by (auto simp: out)
    then show ?thesis by (rule filterFiles_include[OF assms(2,3)])
  qed
  then show ?thesis by (simp add: list_all_iff matchesPattern_def Let_def)
qed

theorem included_matches_include_pattern_witness:
  "\<exists>out. main sampleEnv (sampleOpts\<lparr>opt_include := Some [js ''/w/a.ts'']\<rparr>) [] = Inr out
     \<and> opt_include (sampleOpts\<lparr>opt_include := Some [js ''/w/a.ts'']\<rparr>) = Some [js ''/w/a.ts'']
     \<and> included out = [js ''/w/a.ts'']
     \<and> list_all
          (\<lambda>f. list_ex (\<lambda>pattern.
                   globTest sampleEnv pattern (relative sampleEnv (js ''/w'') f)
                   \<or> globTest sampleEnv pattern f) [js ''/w/a.ts''])
          (included out)"
proof -
  let ?opts = "sampleOpts\<lparr>opt_include := Some [js ''/w/a.ts'']\<rparr>"
  obtain out where run: "main sampleEnv ?opts [] = Inr out"
      and inc: "included out = [js ''/w/a.ts'']"
    using sample_run_include by blast
  have pats: "opt_include ?opts = Some [js ''/w/a.ts'']" by simp
  have ne: "[js ''/w/a.ts''] \<noteq> []" by simp
  have b: "baseDirOf sampleEnv (opt_paths ?opts) = js ''/w''"
    by (simp add: sample_base sampleOpts_def)
  show ?thesis
    using included_matches_include_pattern[OF run pats ne] run inc pats unfolding b by blast
qed

text \<open>
  As the claim was stated it fails: with the include pattern \<open>/w/a.ts\<close> the file is
  included through its absolute path, while its relative path \<open>a.ts\<close> matches no
  pattern.
\<close>

theorem absolute_match_counterexample:
  "map_sum id included (main sampleEnv (sampleOpts\<lparr>opt_include := Some [js ''/w/a.ts'']\<rparr>) [])
       = Inr [js ''/w/a.ts'']
   \<and> relative sampleEnv (baseDirOf sampleEnv (opt_paths sampleOpts)) (js ''/w/a.ts'') = js ''a.ts''
   \<and> \<not> globTest sampleEnv (js ''/w/a.ts'') (js ''a.ts'')"
proof -
  have "relative sampleEnv (js ''/w'') (js ''/w/a.ts'') = js ''a.ts''"
    by (simp add: sample_defs)
  moreover have "\<not> globTest sampleEnv (js ''/w/a.ts'') (js ''a.ts'')"
    by (simp add: sample_defs)
  ultimately show ?thesis
    using sample_run_include by (auto simp: sampleOpts_def sample_base)
qed

subsection \<open>C6: the classifier on an empty file\<close>

text \<open>
  Claim C6. The classifier takes a file whose extension is not in the binary set and
  whose content can be read as binary exactly when the fraction of zero bytes among its
  first 8000 bytes is at least one tenth, and as text otherwise; a file that cannot be
  read is binary. The code does so on every file that cannot be read and on every
  readable file that is not empty (\<open>classifier_fails_closed\<close>, \<open>classifier_rule\<close>). On
  an empty file it does not: the sample holds no zero byte, and yet the file is
  classified as binary, because the code compares \<open>0 / 0\<close> with \<open>0.1\<close>. The theorem
  evaluates the classifier on the empty file of the example directory.
\<close>

theorem empty_file_classified_binary:
  "readFile sampleEnv (js ''/w/empty.txt'') = Some []
   \<and> extensionOf (js ''/w/empty.txt'') = js ''.txt''
   \<and> js ''.txt'' \<notin> set BINARY_EXT
   \<and> countNulls (take 8000 []) = 0
   \<and> \<not> isTextFile sampleEnv (js ''/w/empty.txt'')"
  by (simp add: sample_read_empty sample_ext sample_ext_text sample_text_empty countNulls_def)

subsection \<open>C7: the token estimate\<close>

text \<open>
  Claim C7. The token estimate of a text is the ceiling of its length (in UTF-16 code
  units, what \<open>text.length\<close> counts) divided by 3.5: the rounding of the binary64
  division never changes the ceiling. It is a function of the text alone. The bound on
  the length is far above what a string can hold (fewer than \<open>2 ^ 30\<close> code units).
\<close>

theorem estimateTokens_ceiling:
  assumes "length text < 2 ^ 50"
  shows "estimateTokens text = Fin (of_int \<lceil>(of_nat (length text) :: rat) / (7/2)\<rceil>)"
  using ceiling_round64_tokens[OF assms] by (simp add: estimateTokens_def num_div_def)

theorem estimateTokens_ceiling_witness:
  "length (js ''console.log(4)'') < 2 ^ 50 \<and> estimateTokens (js ''console.log(4)'') = Fin 4"
  using estimateTokens_ceiling[of "js ''console.log(4)''"] by (simp add: js_def)

subsection \<open>C8: one small file gives one section\<close>

text \<open>
  Claim C8. A run on a single input that resolves to a text file of at most 100k
  bytes, with content \<open>console.log(4)\<close> (followed by any white space), display name
  \<open>a.ts\<close>, no include or exclude patterns and the threshold \<open>100k\<close>, succeeds with
  exactly this file included and with the body made of three lines joined by newlines:
  the header \<open>-- file: a.ts --\<close>, the line \<open>console.log(4)\<close>, and an empty line.
\<close>

theorem single_file_section:
  assumes "opt_paths opts = [p]"
    and "opt_include opts = None" and "opt_exclude opts = None"
    and "opt_maxSize opts = js ''100k''"
    and "nodes e (resolve e p) = Some n" and "nkind n = IsFile" and "fsize n \<le> 102400"
    and "isTextFile e (resolve e p)"
    and "readTextFile e (resolve e p) = Some (js ''console.log(4)'' @ ws)"
    and "list_all isWhiteSpace ws"
    and "displayName e (cwd e) (resolve e p) = js ''a.ts''"
    and "truthy (opt_output opts) \<Longrightarrow> writable e (the (opt_output opts))"
  shows "\<exists>out. main e opts input = Inr out
           \<and> included out = [resolve e p] \<and> length (included out) = 1
           \<and> skipped out = [] \<and> requests out = []
           \<and> body out = join [10] [js ''-- file: a.ts --'', js ''console.log(4)'', []]
           \<and> body out = js ''-- file: a.ts --'' @ [10] @ js ''console.log(4)'' @ [10]"
proof -
  let ?f = "resolve e p"
  have base: "baseDirOf e (opt_paths opts) = cwd e"
    using assms(1,5,6) by (simp add: baseDirOf_def)
  have coll: "collectFiles e (opt_paths opts) [] = Inr [?f]"
    using assms(1,5,6) by (simp add: getFiles_def)
  have filt: "filterFiles e opts (cwd e) [?f] = [?f]"
    using assms(2,3) by (simp add: filterFiles_def given_def)
  have loop: "gateLoop e 102400 (baseDirOf e (opt_paths opts))
                (filterFiles e opts (baseDirOf e (opt_paths opts)) [?f]) (initialGate opts input)
              = Inr (Continue, pushInclude ?f (initialGate opts input))"
    using gateStep_small[OF assms(8,5,7), of "cwd e" "initialGate opts input"]
    by (simp add: base filt)
  have inc: "filesToInclude (pushInclude ?f (initialGate opts input)) = [?f]"
    by (simp add: pushInclude_def initialGate_def)
  have hdr: "js ''-- file: '' @ js ''a.ts'' @ js '' --'' = js ''-- file: a.ts --''"
    by (simp add: js_def)
  have build: "buildOutput e (baseDirOf e (opt_paths opts))
                 (filesToInclude (pushInclude ?f (initialGate opts input))) []
               = Inr [js ''-- file: a.ts --'', js ''console.log(4)'', []]"
    using assms(9,11)
    by (simp add: inc base trimEnd_append_whitespace[OF assms(10)] trimEnd_console_log hdr)
  obtain s where disp: "dispatch e opts (join [10] [js ''-- file: a.ts --'', js ''console.log(4)'', []]) = (s, None)"
    using dispatch_ok[OF assms(12)] by (metis prod.collapse)
  have "main e opts input =
          Inr \<lparr>included = filesToInclude (pushInclude ?f (initialGate opts input)),
               skipped = skippedFiles (pushInclude ?f (initialGate opts input)),
               requests = prompted (pushInclude ?f (initialGate opts input)),
               body = join [10] [js ''-- file: a.ts --'', js ''console.log(4)'', []],
               totalTokens = estimateTokens (join [10] [js ''-- file: a.ts --'', js ''console.log(4)'', []]),
               delivered = s\<rparr>"
    using parseMaxSize_100k coll loop build disp assms(4)
    by (intro main_run) simp_all
  then show ?thesis by (simp add: pushInclude_def initialGate_def)
qed

theorem single_file_section_witness:
  "opt_paths sampleOpts = [js ''a.ts'']
   \<and> opt_maxSize sampleOpts = js ''100k''
   \<and> isTextFile sampleEnv (resolve sampleEnv (js ''a.ts''))
   \<and> readTextFile sampleEnv (resolve sampleEnv (js ''a.ts'')) = Some (js ''console.log(4)'' @ [])
   \<and> displayName sampleEnv (cwd sampleEnv) (resolve sampleEnv (js ''a.ts'')) = js ''a.ts''
   \<and> (\<exists>out. main sampleEnv sampleOpts [] = Inr out
           \<and> included out = [js ''/w/a.ts''] \<and> length (included out) = 1
           \<and> body out = js ''-- file: a.ts --'' @ [10] @ js ''console.log(4)'' @ [10])"
proof -
  have h1: "opt_paths sampleOpts = [js ''a.ts'']" by (simp add: sampleOpts_def)
  have h2: "opt_include sampleOpts = None" by (simp add: sampleOpts_def)
  have h3: "opt_exclude sampleOpts = None" by (simp add: sampleOpts_def)
  have h4: "opt_maxSize sampleOpts = js ''100k''" by (simp add: sampleOpts_def)
  have h5: "nodes sampleEnv (resolve sampleEnv (js ''a.ts''))
            = Some \<lparr>nkind = IsFile, fsize = 14, ndata = Some (map of_char ''console.log(4)'')\<rparr>"
    by (simp add: sample_resolve sample_node_a)
  have h6: "nkind \<lparr>nkind = IsFile, fsize = 14, ndata = Some (map of_char ''console.log(4)'')\<rparr> = IsFile"
    by simp
  have h7: "fsize \<lparr>nkind = IsFile, fsize = 14, ndata = Some (map of_char ''console.log(4)'')\<rparr> \<le> 102400"
    by simp
  have h8: "isTextFile sampleEnv (resolve sampleEnv (js ''a.ts''))"
    by (simp add: sample_resolve sample_text_a)
  have h9: "readTextFile sampleEnv (resolve sampleEnv (js ''a.ts'')) = Some (js ''console.log(4)'' @ [])"
    by (simp add: sample_resolve sample_readText_a)
  have h10: "list_all isWhiteSpace []" by simp
  have h11: "displayName sampleEnv (cwd sampleEnv) (resolve sampleEnv (js ''a.ts'')) = js ''a.ts''"
    using sample_names(1) by (simp add: sample_resolve) (simp add: sampleEnv_def)
  have h12: "truthy (opt_output sampleOpts) \<Longrightarrow> writable sampleEnv (the (opt_output sampleOpts))"
    by (simp add: sampleEnv_def)
  show ?thesis
    using single_file_section[OF h1 h2 h3 h4 h5 h6 h7 h8 h9 h10 h11 h12, of "[]"] h1 h4 h8 h9 h11
    by (auto simp: sample_resolve)
qed

subsection \<open>C9: when the body goes to standard output\<close>

text \<open>
  Claim C9, amended. The body is logged to standard output exactly when \<open>--copy\<close> is
  not set and \<open>--output\<close> is absent or empty; otherwise nothing is logged there.
\<close>

theorem stdout_only_without_sinks:
  "stdout (fst (dispatch e opts result)) =
     (if (opt_output opts = None \<or> opt_output opts = Some []) \<and> \<not> opt_copy opts
      then [result] else [])"
  by (cases "opt_output opts")
     (auto simp: dispatch_def Let_def truthy_def copyToClipboard_def)

theorem stdout_only_without_sinks_witness:
  "stdout (fst (dispatch sampleEnv sampleOpts (js ''body''))) = [js ''body'']
   \<and> stdout (fst (dispatch sampleEnv (sampleOpts\<lparr>opt_copy := True\<rparr>) (js ''body''))) = []
   \<and> stdout (fst (dispatch sampleEnv (sampleOpts\<lparr>opt_output := Some (js ''out.txt'')\<rparr>) (js ''body''))) = []"
  using stdout_only_without_sinks[of sampleEnv sampleOpts "js ''body''"]
        stdout_only_without_sinks[of sampleEnv "sampleOpts\<lparr>opt_copy := True\<rparr>" "js ''body''"]
        stdout_only_without_sinks[of sampleEnv "sampleOpts\<lparr>opt_output := Some (js ''out.txt'')\<rparr>" "js ''body''"]
  by (simp add: sampleOpts_def js_def)

text \<open>
  As the claim was stated it fails: with \<open>--output\<close> set to the empty string the body
  goes to standard output, and no file is written.
\<close>

theorem empty_output_counterexample:
  "opt_output (sampleOpts\<lparr>opt_output := Some []\<rparr>) = Some []
   \<and> stdout (fst (dispatch sampleEnv (sampleOpts\<lparr>opt_output := Some []\<rparr>) (js ''body''))) = [js ''body'']
   \<and> written (fst (dispatch sampleEnv (sampleOpts\<lparr>opt_output := Some []\<rparr>) (js ''body''))) = None"
  by (simp add: dispatch_def Let_def truthy_def sampleOpts_def)

subsection \<open>C10: an empty file is never included\<close>

text \<open>
  Claim C10. For a file whose content can be read and is empty, the fraction of zero
  bytes is computed as \<open>0 / 0\<close>, which is \<open>NaN\<close>; \<open>NaN < 0.1\<close> is false; the classifier
  says binary, whatever the extension; and the file is in the included sequence of no
  successful run.
\<close>

theorem empty_file_never_included:
  assumes "readFile e path = Some []"
    and "main e opts input = Inr out"
  shows "num_div (of_nat (countNulls (take 8000 []))) (of_nat (length (take 8000 ([]::byte list)))) = NaN
         \<and> \<not> num_lt NaN (Fin (round64 (1/10)))
         \<and> \<not> isTextFile e path
         \<and> path \<notin> set (included out)"
proof -
  have nt: "\<not> isTextFile e path"
    using assms(1) by (simp add: isTextFile_def Let_def sampleIsText_empty)
  obtain m allFiles c st outp s where
    loop: "gateLoop e m (baseDirOf e (opt_paths opts))
       (filterFiles e opts (baseDirOf e (opt_paths opts)) allFiles) (initialGate opts input) = Inr (c, st)" and
    out: "out = \<lparr>included = filesToInclude st, skipped = skippedFiles st,
               requests = prompted st, body = join [10] outp,
               totalTokens = estimateTokens (join [10] outp), delivered = s\<rparr>"
    using assms(2) by (rule main_stages)
  have "path \<notin> set (filesToInclude st)"
    using gateLoop_included_text[OF loop, of path] nt by (auto simp: initialGate_def)
  then show ?thesis using nt by (simp add: out num_div_def countNulls_def)
qed

theorem empty_file_never_included_witness:
  "readFile sampleEnv (js ''/w/empty.txt'') = Some []
   \<and> (\<exists>out. main sampleEnv (sampleOpts\<lparr>opt_paths := [js ''/w'']\<rparr>) [] = Inr out
          \<and> included out = [js ''/w/a.ts'', js ''/w/b.ts'']
          \<and> js ''/w/empty.txt'' \<notin> set (included out))
   \<and> \<not> isTextFile sampleEnv (js ''/w/empty.txt'')"
proof -
  obtain out where run: "main sampleEnv (sampleOpts\<lparr>opt_paths := [js ''/w'']\<rparr>) [] = Inr out"
      and inc: "included out = [js ''/w/a.ts'', js ''/w/b.ts'']"
    using sample_run_dir by blast
  show ?thesis
    using empty_file_never_included[OF sample_read_empty run] run inc sample_read_empty by blast
qed

end
